theory Spec2Isabelle
  imports Main "HOL-Library.Sublist"
begin

section \<open>Data model (types/vault.types.ts, server/src/models/Vault.ts)\<close>

text \<open>
  The JavaScript numbers that carry ids and versions are integer-valued doubles; each is
  represented by the integer it denotes. Comparisons of such numbers are exact; the one
  arithmetic operation of the code, \<open>vault.vaultVersion += 1\<close>, is the addition of
  doubles, modelled by \<open>plusOne\<close> below. Optional properties are \<open>option\<close> values,
  \<open>None\<close> standing for \<open>undefined\<close>.
\<close>

datatype resolution = LocalWins | ServerWins | Merged

record passwordChange =
  password_h :: string
  changedAt :: string

record conflictRecord =
  password_c :: string
  resolvedAt :: string
  resolution :: resolution

record VaultEntry =
  id_entry :: int
  website :: string
  username :: string
  password :: string
  securityQuestion :: "string option"
  securityAnswer :: "string option"
  isFavorite :: bool
  category :: "string option"
  passwordHistory :: "passwordChange list option"
  conflictHistory :: "conflictRecord list option"
  version :: int
  updatedAt :: string
  isDeleted :: "bool option"
  deletedAt :: "string option"

record SyncDelta =
  eventId :: string
  added :: "VaultEntry list"
  updated :: "VaultEntry list"
  deleted :: "int list"
  baseVersion :: int

text \<open>The Mongoose document \<open>IVault\<close>; a \<open>Date\<close> is its time value in milliseconds.\<close>

type_synonym date = int

record Vault =
  userId :: string
  vaultVersion :: int
  encryptedEntries :: "VaultEntry list"
  lastSyncedAt :: date

section \<open>Array helpers\<close>

text \<open>\<open>Array.prototype.findIndex\<close>: the first index whose element satisfies the
  predicate; \<open>None\<close> stands for the result \<open>-1\<close>.\<close>

fun findIndex :: "('a \<Rightarrow> bool) \<Rightarrow> 'a list \<Rightarrow> nat option" where
  "findIndex P [] = None"
| "findIndex P (x # xs) = (if P x then Some 0 else map_option Suc (findIndex P xs))"

section \<open>Number addition\<close>

text \<open>
  \<open>v + 1\<close> on an integer-valued double \<open>v\<close> is the exact sum rounded to the nearest
  double, ties to the even significand (IEEE 754 binary64, 53 significant bits); the sum
  never overflows. \<open>spacing m\<close> is the distance between neighbouring doubles at
  magnitude \<open>m\<close>: 1 below \<open>2^53\<close>, doubling with every further binary digit. Integers of
  magnitude up to \<open>2^53\<close> are doubles themselves; \<open>2^53 + 1\<close> is not, and rounds to
  \<open>2^53\<close>.
\<close>

function spacing :: "nat \<Rightarrow> nat" where
  "spacing m = (if m < 2 ^ 53 then 1 else 2 * spacing (m div 2))"
  by pat_completeness auto
termination
  by (relation "measure (\<lambda>m. m)") auto

declare spacing.simps [simp del]

definition roundToDouble :: "int \<Rightarrow> int" where
  "roundToDouble n =
     (let m = nat \<bar>n\<bar>;
          s = spacing m;
          q = m div s;
          r = m mod s;
          q' = (if 2 * r > s \<or> (2 * r = s \<and> odd q) then q + 1 else q)
      in sgn n * int (q' * s))"

definition plusOne :: "int \<Rightarrow> int" where
  "plusOne v = roundToDouble (v + 1)"

section \<open>Server reconciliation endpoint (server/src/routes/vault.ts, POST /sync)\<close>

text \<open>The collection of vault documents, keyed by the authenticated user id.\<close>

type_synonym store = "string \<rightharpoonup> Vault"

datatype response =
    NotFound
  | Conflict int int "VaultEntry list"
  | Success int "VaultEntry list" date

text \<open>Callback of \<open>added.forEach\<close> (lines 64-68).\<close>

definition applyAddition :: "VaultEntry list \<Rightarrow> VaultEntry \<Rightarrow> VaultEntry list" where
  "applyAddition currentEntries newEntry =
     (case find (\<lambda>e. id_entry e = id_entry newEntry) currentEntries of
        None \<Rightarrow> currentEntries @ [newEntry]
      | Some _ \<Rightarrow> currentEntries)"

text \<open>Callback of \<open>updated.forEach\<close> (lines 73-93).\<close>

definition applyUpdate :: "VaultEntry list \<Rightarrow> VaultEntry \<Rightarrow> VaultEntry list" where
  "applyUpdate currentEntries update =
     (case findIndex (\<lambda>e. id_entry e = id_entry update) currentEntries of
        Some index \<Rightarrow>
          (let existing = currentEntries ! index
           in currentEntries[index := update\<lparr>conflictHistory :=
                (case conflictHistory update of
                   Some h \<Rightarrow> Some h
                 | None \<Rightarrow> conflictHistory existing)\<rparr>])
      | None \<Rightarrow> currentEntries @ [update])"

text \<open>The entry list after the three application phases (lines 54-94).\<close>

definition applyDelta :: "VaultEntry list \<Rightarrow> SyncDelta \<Rightarrow> VaultEntry list" where
  "applyDelta entries body =
     (let currentEntries = entries;
          currentEntries =
            (if length (deleted body) > 0
             then filter (\<lambda>e. \<not> List.member (deleted body) (id_entry e)) currentEntries
             else currentEntries);
          currentEntries =
            (if length (added body) > 0
             then foldl applyAddition currentEntries (added body)
             else currentEntries);
          currentEntries =
            (if length (updated body) > 0
             then foldl applyUpdate currentEntries (updated body)
             else currentEntries)
      in currentEntries)"

text \<open>The handler: the response and the collection after \<open>vault.save()\<close>.
  \<open>now\<close> is the value of \<open>new Date()\<close> read at line 99. The request body is a
  \<open>SyncDelta\<close> with its three lists present, and the two database calls return; the
  \<open>catch\<close> branch (status 500) is reached only when one of them throws. The three
  responses are those of status 404, 409 (\<open>server_base_version\<close>, \<open>vaultVersion\<close>,
  \<open>entries\<close>) and 200 (\<open>vaultVersion\<close>, \<open>entries\<close>, \<open>lastSyncedAt\<close>).\<close>

definition sync :: "date \<Rightarrow> store \<Rightarrow> string \<Rightarrow> SyncDelta \<Rightarrow> response \<times> store" where
  "sync now db uid body =
     (case db uid of
        None \<Rightarrow> (NotFound, db)
      | Some vault \<Rightarrow>
          if baseVersion body \<noteq> vaultVersion vault
          then (Conflict (vaultVersion vault) (vaultVersion vault) (encryptedEntries vault), db)
          else
            (let vault' = vault\<lparr>vaultVersion := plusOne (vaultVersion vault),
                               encryptedEntries := applyDelta (encryptedEntries vault) body,
                               lastSyncedAt := now\<rparr>
             in (Success (vaultVersion vault') (encryptedEntries vault') (lastSyncedAt vault'),
                 db(uid \<mapsto> vault'))))"

section \<open>Client sync service (services/sync.service.ts)\<close>

text \<open>\<open>uuid\<close> is the value \<open>crypto.randomUUID()\<close> returns during the call.\<close>

definition calculateDelta :: "string \<Rightarrow> VaultEntry list \<Rightarrow> int \<Rightarrow> SyncDelta" where
  "calculateDelta uuid localEntries baseVersion' =
     (let changes = filter (\<lambda>e. version e > baseVersion') localEntries;
          updated' = changes;
          deleted' = []
      in \<lparr>eventId = uuid, added = [], updated = updated', deleted = deleted',
          baseVersion = baseVersion'\<rparr>)"

text \<open>\<open>new Date(a) > new Date(b)\<close>: both operands are converted to their time values,
  and a comparison with the \<open>NaN\<close> of an invalid date is false. \<open>dateValue\<close> is the
  runtime's date parser, \<open>None\<close> standing for an invalid date.\<close>

definition newer :: "(string \<Rightarrow> int option) \<Rightarrow> string \<Rightarrow> string \<Rightarrow> bool" where
  "newer dateValue a b =
     (case (dateValue a, dateValue b) of
        (Some x, Some y) \<Rightarrow> x > y
      | _ \<Rightarrow> False)"

text \<open>Callback of \<open>serverDeltas.added.forEach\<close>.\<close>

definition mergeAdded :: "VaultEntry list \<Rightarrow> VaultEntry \<Rightarrow> VaultEntry list" where
  "mergeAdded merged serverEntry =
     (case find (\<lambda>e. id_entry e = id_entry serverEntry) merged of
        None \<Rightarrow> merged @ [serverEntry]
      | Some _ \<Rightarrow> merged)"

text \<open>Callback of \<open>serverDeltas.updated.forEach\<close>; \<open>stamp\<close> is the value of
  \<open>new Date().toISOString()\<close> read by this invocation.\<close>

definition mergeUpdated ::
  "(string \<Rightarrow> int option) \<Rightarrow> string \<Rightarrow> VaultEntry list \<Rightarrow> VaultEntry \<Rightarrow> VaultEntry list" where
  "mergeUpdated dateValue stamp merged serverEntry =
     (case findIndex (\<lambda>e. id_entry e = id_entry serverEntry) merged of
        Some index \<Rightarrow>
          (let localEntry = merged ! index
           in if newer dateValue (updatedAt serverEntry) (updatedAt localEntry)
              then
                (let conflictHistory' =
                       (case conflictHistory localEntry of Some h \<Rightarrow> h | None \<Rightarrow> [])
                 in merged[index := serverEntry\<lparr>conflictHistory :=
                      Some (\<lparr>password_c = password localEntry,
                             resolvedAt = stamp,
                             resolution = ServerWins\<rparr> # take 4 conflictHistory')\<rparr>])
              else merged)
      | None \<Rightarrow> merged @ [serverEntry])"

text \<open>The loop over \<open>serverDeltas.updated\<close>: \<open>clock k\<close> is the wall-clock reading
  available to the invocation for the element at index \<open>k\<close>.\<close>

fun forEachUpdated ::
  "(string \<Rightarrow> int option) \<Rightarrow> (nat \<Rightarrow> string) \<Rightarrow> nat \<Rightarrow> VaultEntry list \<Rightarrow> VaultEntry list
     \<Rightarrow> VaultEntry list" where
  "forEachUpdated dateValue clock k merged [] = merged"
| "forEachUpdated dateValue clock k merged (serverEntry # rest) =
     forEachUpdated dateValue clock (Suc k)
       (mergeUpdated dateValue (clock k) merged serverEntry) rest"

definition resolveConflicts ::
  "(string \<Rightarrow> int option) \<Rightarrow> (nat \<Rightarrow> string) \<Rightarrow> VaultEntry list \<Rightarrow> SyncDelta \<Rightarrow> VaultEntry list" where
  "resolveConflicts dateValue clock localEntries serverDeltas =
     (let merged = localEntries;
          merged = foldl mergeAdded merged (added serverDeltas);
          merged = forEachUpdated dateValue clock 0 merged (updated serverDeltas);
          merged = foldl (\<lambda>merged i. filter (\<lambda>e. id_entry e \<noteq> i) merged) merged
                     (deleted serverDeltas)
      in merged)"

section \<open>Fixtures\<close>

text \<open>Entries in the style of the server test-suite (\<open>{ id: 1, version: 2, ... }\<close>),
  with the remaining fields of \<open>VaultEntry\<close> filled in.\<close>

definition fixture :: "int \<Rightarrow> int \<Rightarrow> string \<Rightarrow> string \<Rightarrow> VaultEntry" where
  "fixture i v t p =
     \<lparr>id_entry = i, website = ''example.org'', username = ''user'', password = p,
      securityQuestion = None, securityAnswer = None, isFavorite = False, category = None,
      passwordHistory = None, conflictHistory = None, version = v, updatedAt = t,
      isDeleted = None, deletedAt = None\<rparr>"

text \<open>Four instants one second apart, in the date-time string format of ECMAScript
  (the format \<open>toISOString\<close> produces and \<open>new Date\<close> parses in every runtime).\<close>

abbreviation at0 :: string where "at0 \<equiv> ''2024-01-01T00:00:00.000Z''"
abbreviation at1 :: string where "at1 \<equiv> ''2024-01-01T00:00:01.000Z''"
abbreviation at2 :: string where "at2 \<equiv> ''2024-01-01T00:00:02.000Z''"
abbreviation at3 :: string where "at3 \<equiv> ''2024-01-01T00:00:03.000Z''"

text \<open>The runtime's date parser on the strings the fixtures use: the time value of each,
  in milliseconds since 1970-01-01T00:00:00Z (19723 days lie between that day and
  2024-01-01). No fixture carries another string in \<open>updatedAt\<close>.\<close>

definition fixtureDate :: "string \<Rightarrow> int option" where
  "fixtureDate s =
     (if s = at0 then Some 1704067200000 else if s = at1 then Some 1704067201000
      else if s = at2 then Some 1704067202000 else if s = at3 then Some 1704067203000
      else None)"

definition fixtureVault :: Vault where
  "fixtureVault = \<lparr>userId = ''u1'', vaultVersion = 1, encryptedEntries = [], lastSyncedAt = 0\<rparr>"

definition fixtureDelta :: SyncDelta where
  "fixtureDelta = \<lparr>eventId = ''event-1'', added = [fixture 1 2 at1 ''pw''], updated = [],
     deleted = [], baseVersion = 1\<rparr>"

definition staleDelta :: SyncDelta where
  "staleDelta = \<lparr>eventId = ''event-stale'', added = [], updated = [fixture 1 6 at1 ''pw''],
     deleted = [], baseVersion = 5\<rparr>"

text \<open>The tombstone scenario of the server test-suite: entry 123 alive at version 1,
  then updated to a tombstone at version 2.\<close>

definition aliveEntry :: VaultEntry where
  "aliveEntry = (fixture 123 1 at0 ''alive'')\<lparr>isDeleted := Some False,
     conflictHistory := Some [\<lparr>password_c = ''older'', resolvedAt = at0,
                               resolution = ServerWins\<rparr>]\<rparr>"

definition deadEntry :: VaultEntry where
  "deadEntry = (fixture 123 2 at1 ''dead'')\<lparr>isDeleted := Some True\<rparr>"

definition tombstoneVault :: Vault where
  "tombstoneVault = \<lparr>userId = ''u1'', vaultVersion = 1, encryptedEntries = [aliveEntry],
     lastSyncedAt = 0\<rparr>"

definition tombstoneDelta :: SyncDelta where
  "tombstoneDelta = \<lparr>eventId = ''event-delete'', added = [], updated = [],
     deleted = [], baseVersion = 1\<rparr>"

text \<open>A vault whose version is \<open>2^53\<close>, the first double whose successor integer is
  not a double, and a change-set based on that version.\<close>

definition saturatedVault :: Vault where
  "saturatedVault = \<lparr>userId = ''u1'', vaultVersion = 9007199254740992, encryptedEntries = [],
     lastSyncedAt = 0\<rparr>"

definition saturatedStore :: store where
  "saturatedStore = [''u1'' \<mapsto> saturatedVault]"

definition saturatedDelta :: SyncDelta where
  "saturatedDelta = \<lparr>eventId = ''event-2'', added = [], updated = [fixture 1 2 at1 ''pw''],
     deleted = [], baseVersion = 9007199254740992\<rparr>"

text \<open>A local list and a server delta for the conflict resolver.\<close>

definition localFixture :: "VaultEntry list" where
  "localFixture = [fixture 1 1 at1 ''local-pw'', fixture 2 1 at1 ''only-local'']"

definition serverFixture :: SyncDelta where
  "serverFixture = \<lparr>eventId = ''event-server'', added = [],
     updated = [fixture 3 5 at3 ''new'', fixture 1 2 at2 ''server-pw''],
     deleted = [], baseVersion = 1\<rparr>"

text \<open>A delta that updates entry 1 and deletes it, and a delta that carries two updates
  of entry 1.\<close>

definition deletingDelta :: SyncDelta where
  "deletingDelta = \<lparr>eventId = ''event-del'', added = [],
     updated = [fixture 1 2 at2 ''server-pw''], deleted = [1], baseVersion = 1\<rparr>"

definition duplicateDelta :: SyncDelta where
  "duplicateDelta = \<lparr>eventId = ''event-dup'', added = [],
     updated = [fixture 1 3 at3 ''server-a'', fixture 1 2 at2 ''server-b''],
     deleted = [], baseVersion = 1\<rparr>"

definition fixtureClock :: "nat \<Rightarrow> string" where
  "fixtureClock k = (if k = 0 then ''2024-01-02T08:00:00.000Z'' else ''2024-01-02T08:00:00.001Z'')"

section \<open>Notions used to state and prove the resolver's properties\<close>

text \<open>The number of records in an entry's conflict history, and the condition under
  which the update loop leaves the list alone for a server entry: the list has an entry
  of that id which the server entry is not newer than.\<close>

definition historyLength :: "VaultEntry \<Rightarrow> nat" where
  "historyLength e = length (case conflictHistory e of Some h \<Rightarrow> h | None \<Rightarrow> [])"

definition settled :: "(string \<Rightarrow> int option) \<Rightarrow> VaultEntry list \<Rightarrow> VaultEntry \<Rightarrow> bool" where
  "settled dv m s =
     (case find (\<lambda>e. id_entry e = id_entry s) m of
        None \<Rightarrow> False
      | Some e \<Rightarrow> \<not> newer dv (updatedAt s) (updatedAt e))"

text \<open>Two runs of the resolver that differ only in what the clock read. \<open>archivedBy\<close>
  relates the records the two runs archive at the same index \<open>k\<close> of the update loop:
  server-wins records of the same password, stamped with the respective reading.
  Two histories are the same up to such records when they are equal or start with
  related records and continue the same way; two entries are, when they agree on every
  field but \<open>conflictHistory\<close> and their histories are both absent or the same up to
  such records.\<close>

definition archivedBy ::
  "(nat \<Rightarrow> string) \<Rightarrow> (nat \<Rightarrow> string) \<Rightarrow> nat \<Rightarrow> conflictRecord \<Rightarrow> conflictRecord \<Rightarrow> bool" where
  "archivedBy clock1 clock2 n r1 r2 \<longleftrightarrow>
     resolution r1 = ServerWins \<and> resolution r2 = ServerWins
     \<and> password_c r1 = password_c r2
     \<and> (\<exists>k<n. resolvedAt r1 = clock1 k \<and> resolvedAt r2 = clock2 k)"

fun sameHistory ::
  "(nat \<Rightarrow> string) \<Rightarrow> (nat \<Rightarrow> string) \<Rightarrow> nat
     \<Rightarrow> conflictRecord list \<Rightarrow> conflictRecord list \<Rightarrow> bool" where
  "sameHistory clock1 clock2 n (r1 # h1) (r2 # h2) =
     (r1 # h1 = r2 # h2
      \<or> (archivedBy clock1 clock2 n r1 r2 \<and> sameHistory clock1 clock2 n h1 h2))"
| "sameHistory clock1 clock2 n h1 h2 = (h1 = h2)"

definition sameEntry ::
  "(nat \<Rightarrow> string) \<Rightarrow> (nat \<Rightarrow> string) \<Rightarrow> nat \<Rightarrow> VaultEntry \<Rightarrow> VaultEntry \<Rightarrow> bool" where
  "sameEntry clock1 clock2 n e1 e2 \<longleftrightarrow>
     e2 = e1\<lparr>conflictHistory := conflictHistory e2\<rparr>
     \<and> (case (conflictHistory e1, conflictHistory e2) of
          (Some h1, Some h2) \<Rightarrow> sameHistory clock1 clock2 n h1 h2
        | (None, None) \<Rightarrow> True
        | _ \<Rightarrow> False)"

definition laterClock :: "nat \<Rightarrow> string" where
  "laterClock k = ''2024-01-02T08:00:00.002Z''"

definition agreeingClock :: "nat \<Rightarrow> string" where
  "agreeingClock k = (if k < 2 then fixtureClock k else ''2024-01-02T08:00:00.002Z'')"

section \<open>Properties of the array helpers and of the loop bodies\<close>

lemma findIndex_None_iff: "findIndex P xs = None \<longleftrightarrow> (\<forall>x\<in>set xs. \<not> P x)"
  by (induction xs) auto

lemma find_findIndex: "find P xs = map_option (\<lambda>i. xs ! i) (findIndex P xs)"
  by (induction xs) (auto simp: option.map_comp comp_def)

lemma applyUpdate_Nil: "applyUpdate [] u = [u]"
  by (simp add: applyUpdate_def)

lemma applyUpdate_Cons:
  "applyUpdate (x # xs) u =
     (if id_entry x = id_entry u
      then u\<lparr>conflictHistory := (case conflictHistory u of Some h \<Rightarrow> Some h | None \<Rightarrow> conflictHistory x)\<rparr> # xs
      else x # applyUpdate xs u)"
  by (auto simp: applyUpdate_def Let_def split: option.splits)

lemma applyAddition_Nil: "applyAddition [] a = [a]"
  by (simp add: applyAddition_def)

lemma applyAddition_Cons:
  "applyAddition (x # xs) a = (if id_entry x = id_entry a then x # xs else x # applyAddition xs a)"
  by (auto simp: applyAddition_def split: option.splits)

lemma mergeAdded_Nil: "mergeAdded [] a = [a]"
  by (simp add: mergeAdded_def)

lemma mergeAdded_Cons:
  "mergeAdded (x # xs) a = (if id_entry x = id_entry a then x # xs else x # mergeAdded xs a)"
  by (auto simp: mergeAdded_def split: option.splits)

lemma mergeUpdated_Nil: "mergeUpdated dv st [] s = [s]"
  by (simp add: mergeUpdated_def)

lemma mergeUpdated_Cons:
  "mergeUpdated dv st (x # xs) s =
     (if id_entry x = id_entry s
      then (if newer dv (updatedAt s) (updatedAt x)
            then s\<lparr>conflictHistory := Some (\<lparr>password_c = password x, resolvedAt = st, resolution = ServerWins\<rparr>
                     # take 4 (case conflictHistory x of Some h \<Rightarrow> h | None \<Rightarrow> []))\<rparr> # xs
            else x # xs)
      else x # mergeUpdated dv st xs s)"
  by (auto simp: mergeUpdated_def Let_def split: option.splits)

lemma ids_applyUpdate:
  "id_entry ` set (applyUpdate m u) = insert (id_entry u) (id_entry ` set m)"
  by (induction m) (auto simp: applyUpdate_Nil applyUpdate_Cons)

lemma filter_applyUpdate_other:
  "id_entry u \<noteq> i \<Longrightarrow>
   filter (\<lambda>e. id_entry e = i) (applyUpdate m u) = filter (\<lambda>e. id_entry e = i) m"
  by (induction m) (auto simp: applyUpdate_Nil applyUpdate_Cons)

lemma filter_foldl_applyUpdate_other:
  "\<forall>u\<in>set us. id_entry u \<noteq> i \<Longrightarrow>
   filter (\<lambda>e. id_entry e = i) (foldl applyUpdate m us) = filter (\<lambda>e. id_entry e = i) m"
  by (induction us arbitrary: m) (simp_all add: filter_applyUpdate_other)

lemma count_applyUpdate_same:
  "length (filter (\<lambda>e. id_entry e = id_entry u) (applyUpdate m u)) =
   max (Suc 0) (length (filter (\<lambda>e. id_entry e = id_entry u) m))"
  by (induction m) (auto simp: applyUpdate_Nil applyUpdate_Cons)

lemma count_applyUpdate:
  "length (filter (\<lambda>e. id_entry e = i) m) \<le> Suc 0 \<Longrightarrow>
   length (filter (\<lambda>e. id_entry e = i) (applyUpdate m u)) \<le> Suc 0"
  by (cases "id_entry u = i") (auto simp: count_applyUpdate_same filter_applyUpdate_other)

lemma count_foldl_applyUpdate:
  "length (filter (\<lambda>e. id_entry e = i) m) \<le> Suc 0 \<Longrightarrow>
   length (filter (\<lambda>e. id_entry e = i) (foldl applyUpdate m us)) \<le> Suc 0"
  by (induction us arbitrary: m) (simp_all add: count_applyUpdate)

lemma filter_applyAddition:
  "filter (\<lambda>e. id_entry e = i) (applyAddition m a) =
   (if id_entry a = i \<and> i \<notin> id_entry ` set m then [a] else filter (\<lambda>e. id_entry e = i) m)"
  by (induction m) (auto simp: applyAddition_Nil applyAddition_Cons)

lemma count_applyAddition:
  "length (filter (\<lambda>e. id_entry e = i) m) \<le> Suc 0 \<Longrightarrow>
   length (filter (\<lambda>e. id_entry e = i) (applyAddition m a)) \<le> Suc 0"
  by (simp add: filter_applyAddition)

lemma count_foldl_applyAddition:
  "length (filter (\<lambda>e. id_entry e = i) m) \<le> Suc 0 \<Longrightarrow>
   length (filter (\<lambda>e. id_entry e = i) (foldl applyAddition m as)) \<le> Suc 0"
  by (induction as arbitrary: m) (simp_all add: count_applyAddition)

lemma filter_applyUpdate_same:
  "length (filter (\<lambda>e. id_entry e = id_entry u) m) \<le> Suc 0 \<Longrightarrow>
   \<exists>c. filter (\<lambda>e. id_entry e = id_entry u) (applyUpdate m u) = [u\<lparr>conflictHistory := c\<rparr>]"
proof (induction m)
  case Nil
  have "filter (\<lambda>e. id_entry e = id_entry u) (applyUpdate [] u)
          = [u\<lparr>conflictHistory := conflictHistory u\<rparr>]"
    by (simp add: applyUpdate_Nil)
  then show ?case by blast
next
  case (Cons x m)
  then show ?case by (auto simp: applyUpdate_Cons)
qed

lemma applyDelta_snoc:
  "applyDelta entries (body\<lparr>updated := us @ [u]\<rparr>) =
   applyUpdate (applyDelta entries (body\<lparr>updated := us\<rparr>)) u"
  by (simp add: applyDelta_def)

lemma findIndex_Some_props:
  "findIndex P xs = Some i \<Longrightarrow> i < length xs \<and> P (xs ! i) \<and> (\<forall>j<i. \<not> P (xs ! j))"
proof (induction xs arbitrary: i)
  case Nil
  then show ?case by simp
next
  case (Cons x xs)
  show ?case
  proof (cases "P x")
    case True
    with Cons.prems show ?thesis by simp
  next
    case False
    with Cons.prems obtain k where k: "findIndex P xs = Some k" "i = Suc k" by auto
    from Cons.IH [OF k(1)] False k(2) show ?thesis
      by (auto simp: nth_Cons split: nat.splits)
  qed
qed


lemma applyDelta_folds:
  "applyDelta entries body =
   foldl applyUpdate
     (foldl applyAddition
        (filter (\<lambda>e. id_entry e \<notin> set (deleted body)) entries) (added body))
     (updated body)"
  by (cases "deleted body = []"; cases "added body = []"; cases "updated body = []")
     (simp_all add: applyDelta_def Let_def)

lemma count_after_delete:
  "i \<in> set ds \<Longrightarrow> filter (\<lambda>e. id_entry e = i) (filter (\<lambda>e. id_entry e \<notin> set ds) m) = []"
  by (induction m) (auto)

lemma foldl_delete:
  "foldl (\<lambda>merged i. filter (\<lambda>e. id_entry e \<noteq> i) merged) m ds =
   filter (\<lambda>e. id_entry e \<notin> set ds) m"
proof (induction ds arbitrary: m)
  case Nil
  show ?case by simp
next
  case (Cons d ds)
  have "filter (\<lambda>e. id_entry e \<notin> set ds) (filter (\<lambda>e. id_entry e \<noteq> d) m)
          = filter (\<lambda>e. id_entry e \<notin> set (d # ds)) m"
    by (induction m) auto
  with Cons show ?case by simp
qed

lemma resolveConflicts_phases:
  "resolveConflicts dv clock localEntries serverDeltas =
   filter (\<lambda>e. id_entry e \<notin> set (deleted serverDeltas))
     (forEachUpdated dv clock 0 (foldl mergeAdded localEntries (added serverDeltas))
        (updated serverDeltas))"
  by (simp add: resolveConflicts_def foldl_delete)

lemma find_mergeAdded:
  "find (\<lambda>e. id_entry e = i) (mergeAdded m a) =
   (case find (\<lambda>e. id_entry e = i) m of
      Some x \<Rightarrow> Some x
    | None \<Rightarrow> if id_entry a = i then Some a else None)"
  by (induction m) (auto simp: mergeAdded_Nil mergeAdded_Cons split: option.splits)

lemma find_foldl_mergeAdded:
  "find (\<lambda>e. id_entry e = i) m = Some x \<Longrightarrow>
   find (\<lambda>e. id_entry e = i) (foldl mergeAdded m as) = Some x"
  by (induction as arbitrary: m) (simp_all add: find_mergeAdded)

lemma filter_mergeAdded:
  "filter (\<lambda>e. id_entry e = i) (mergeAdded m a) =
   (if id_entry a = i \<and> i \<notin> id_entry ` set m then [a] else filter (\<lambda>e. id_entry e = i) m)"
  by (induction m) (auto simp: mergeAdded_Nil mergeAdded_Cons)

lemma ids_mergeAdded:
  "id_entry ` set (mergeAdded m a) = insert (id_entry a) (id_entry ` set m)"
  by (induction m) (auto simp: mergeAdded_Nil mergeAdded_Cons)

lemma ids_foldl_mergeAdded:
  "id_entry ` set (foldl mergeAdded m as) = id_entry ` set m \<union> id_entry ` set as"
  by (induction as arbitrary: m) (auto simp: ids_mergeAdded)

lemma filter_foldl_mergeAdded:
  "i \<in> id_entry ` set m \<Longrightarrow>
   filter (\<lambda>e. id_entry e = i) (foldl mergeAdded m as) = filter (\<lambda>e. id_entry e = i) m"
  by (induction as arbitrary: m) (simp_all add: filter_mergeAdded ids_mergeAdded)

lemma ids_mergeUpdated:
  "id_entry ` set (mergeUpdated dv st m s) = insert (id_entry s) (id_entry ` set m)"
  by (induction m) (auto simp: mergeUpdated_Nil mergeUpdated_Cons)

lemma ids_forEachUpdated:
  "id_entry ` set (forEachUpdated dv clock k m us) = id_entry ` set m \<union> id_entry ` set us"
  by (induction us arbitrary: m k) (auto simp: ids_mergeUpdated)

lemma filter_mergeUpdated_other:
  "id_entry s \<noteq> i \<Longrightarrow>
   filter (\<lambda>e. id_entry e = i) (mergeUpdated dv st m s) = filter (\<lambda>e. id_entry e = i) m"
  by (induction m) (auto simp: mergeUpdated_Nil mergeUpdated_Cons)

lemma filter_forEachUpdated_other:
  "\<forall>s\<in>set us. id_entry s \<noteq> i \<Longrightarrow>
   filter (\<lambda>e. id_entry e = i) (forEachUpdated dv clock k m us) = filter (\<lambda>e. id_entry e = i) m"
  by (induction us arbitrary: m k) (simp_all add: filter_mergeUpdated_other)

lemma find_mergeUpdated_other:
  "id_entry s \<noteq> i \<Longrightarrow>
   find (\<lambda>e. id_entry e = i) (mergeUpdated dv st m s) = find (\<lambda>e. id_entry e = i) m"
  by (induction m) (auto simp: mergeUpdated_Nil mergeUpdated_Cons)

lemma find_forEachUpdated_other:
  "\<forall>s\<in>set us. id_entry s \<noteq> i \<Longrightarrow>
   find (\<lambda>e. id_entry e = i) (forEachUpdated dv clock k m us) = find (\<lambda>e. id_entry e = i) m"
  by (induction us arbitrary: m k) (simp_all add: find_mergeUpdated_other)

lemma find_mergeUpdated_same:
  "find (\<lambda>e. id_entry e = id_entry s) (mergeUpdated dv st m s) =
   Some (case find (\<lambda>e. id_entry e = id_entry s) m of
           None \<Rightarrow> s
         | Some l \<Rightarrow>
             if newer dv (updatedAt s) (updatedAt l)
             then s\<lparr>conflictHistory := Some (\<lparr>password_c = password l, resolvedAt = st,
                      resolution = ServerWins\<rparr>
                      # take 4 (case conflictHistory l of Some h \<Rightarrow> h | None \<Rightarrow> []))\<rparr>
             else l)"
  by (induction m) (auto simp: mergeUpdated_Nil mergeUpdated_Cons)

lemma forEachUpdated_append:
  "forEachUpdated dv clock k m (us @ vs) =
   forEachUpdated dv clock (k + length us) (forEachUpdated dv clock k m us) vs"
  by (induction us arbitrary: m k) simp_all

lemma find_filter_keep:
  "(\<And>x. P x \<Longrightarrow> Q x) \<Longrightarrow> find P (filter Q xs) = find P xs"
  by (induction xs) auto

lemma filter_filter_keep:
  "(\<And>x. P x \<Longrightarrow> Q x) \<Longrightarrow> filter P (filter Q xs) = filter P xs"
  by (induction xs) auto

lemma forEachUpdated_clock_cong:
  "\<forall>j<length us. clock1 (k + j) = clock2 (k + j) \<Longrightarrow>
   forEachUpdated dv clock1 k m us = forEachUpdated dv clock2 k m us"
proof (induction us arbitrary: k m)
  case Nil
  show ?case by simp
next
  case (Cons s us)
  from Cons.prems have "clock1 k = clock2 k" by force
  moreover have "\<forall>j<length us. clock1 (Suc k + j) = clock2 (Suc k + j)"
    using Cons.prems by force
  ultimately show ?case using Cons.IH [of "Suc k"] by simp
qed


lemma newer_irrefl: "\<not> newer dv a a"
  by (simp add: newer_def split: option.splits)

lemma newer_trans: "newer dv a b \<Longrightarrow> newer dv b c \<Longrightarrow> newer dv a c"
  by (auto simp: newer_def split: option.splits)

lemma settled_mergeUpdated_self: "settled dv (mergeUpdated dv st m s) s"
  unfolding settled_def find_mergeUpdated_same
  by (simp add: newer_irrefl split: option.splits)

lemma settled_mergeUpdated_keep:
  assumes "settled dv m t"
  shows "settled dv (mergeUpdated dv st m s) t"
proof (cases "id_entry s = id_entry t")
  case False
  with assms show ?thesis
    by (simp add: settled_def find_mergeUpdated_other)
next
  case True
  from assms obtain e where e: "find (\<lambda>x. id_entry x = id_entry t) m = Some e"
      "\<not> newer dv (updatedAt t) (updatedAt e)"
    by (auto simp: settled_def split: option.splits)
  have "\<not> newer dv (updatedAt t) (updatedAt s)" if "newer dv (updatedAt s) (updatedAt e)"
    using that e(2) newer_trans by blast
  with e show ?thesis
    using find_mergeUpdated_same [of s dv st m] True
    by (simp add: settled_def)
qed

lemma settled_forEachUpdated_keep:
  "settled dv m t \<Longrightarrow> settled dv (forEachUpdated dv clock k m us) t"
  by (induction us arbitrary: m k) (simp_all add: settled_mergeUpdated_keep)

lemma settled_forEachUpdated_all:
  "s \<in> set us \<Longrightarrow> settled dv (forEachUpdated dv clock k m us) s"
proof (induction us arbitrary: m k)
  case Nil
  then show ?case by simp
next
  case (Cons u us)
  show ?case
  proof (cases "s = u")
    case True
    then show ?thesis
      by (simp add: settled_forEachUpdated_keep settled_mergeUpdated_self)
  next
    case False
    with Cons.prems have "s \<in> set us" by simp
    then show ?thesis by (simp add: Cons.IH)
  qed
qed

lemma mergeUpdated_settled: "settled dv m s \<Longrightarrow> mergeUpdated dv st m s = m"
  by (induction m) (auto simp: settled_def mergeUpdated_Cons)

lemma filter_mergeUpdated_deleted:
  "id_entry s \<in> del \<Longrightarrow>
   filter (\<lambda>e. id_entry e \<notin> del) (mergeUpdated dv st m s) = filter (\<lambda>e. id_entry e \<notin> del) m"
  by (induction m) (auto simp: mergeUpdated_Nil mergeUpdated_Cons)

lemma filter_forEachUpdated_settled:
  "\<forall>s\<in>set us. id_entry s \<in> del \<or> settled dv m s \<Longrightarrow>
   filter (\<lambda>e. id_entry e \<notin> del) (forEachUpdated dv clock k m us)
     = filter (\<lambda>e. id_entry e \<notin> del) m"
proof (induction us arbitrary: m k)
  case Nil
  show ?case by simp
next
  case (Cons s us)
  let ?m' = "mergeUpdated dv (clock k) m s"
  have step: "filter (\<lambda>e. id_entry e \<notin> del) ?m' = filter (\<lambda>e. id_entry e \<notin> del) m"
    using Cons.prems by (auto simp: mergeUpdated_settled filter_mergeUpdated_deleted)
  have "\<forall>t\<in>set us. id_entry t \<in> del \<or> settled dv ?m' t"
    using Cons.prems by (auto simp: settled_mergeUpdated_keep)
  from Cons.IH [OF this] step show ?case by simp
qed

lemma mergeAdded_present: "id_entry a \<in> id_entry ` set m \<Longrightarrow> mergeAdded m a = m"
  by (induction m) (auto simp: mergeAdded_Cons)

lemma mergeAdded_absent: "id_entry a \<notin> id_entry ` set m \<Longrightarrow> mergeAdded m a = m @ [a]"
  by (induction m) (auto simp: mergeAdded_Nil mergeAdded_Cons)

lemma filter_foldl_mergeAdded_deleted:
  "\<forall>a\<in>set as. id_entry a \<in> del \<or> id_entry a \<in> id_entry ` set m \<Longrightarrow>
   filter (\<lambda>e. id_entry e \<notin> del) (foldl mergeAdded m as) = filter (\<lambda>e. id_entry e \<notin> del) m"
proof (induction as arbitrary: m)
  case Nil
  show ?case by simp
next
  case (Cons a as)
  have step: "filter (\<lambda>e. id_entry e \<notin> del) (mergeAdded m a) = filter (\<lambda>e. id_entry e \<notin> del) m"
  proof (cases "id_entry a \<in> id_entry ` set m")
    case True
    then show ?thesis by (simp add: mergeAdded_present)
  next
    case False
    with Cons.prems have "id_entry a \<in> del" by simp
    with False show ?thesis by (simp add: mergeAdded_absent)
  qed
  have "\<forall>b\<in>set as. id_entry b \<in> del \<or> id_entry b \<in> id_entry ` set (mergeAdded m a)"
    using Cons.prems by (auto simp: ids_mergeAdded)
  from Cons.IH [OF this] step show ?case by simp
qed

lemma resolveConflicts_idempotent:
  "resolveConflicts dv clock2 (resolveConflicts dv clock1 localEntries serverDeltas) serverDeltas
     = resolveConflicts dv clock1 localEntries serverDeltas"
proof -
  define del where "del = set (deleted serverDeltas)"
  define as where "as = added serverDeltas"
  define us where "us = updated serverDeltas"
  define M1 where "M1 = forEachUpdated dv clock1 0 (foldl mergeAdded localEntries as) us"
  define out where "out = filter (\<lambda>e. id_entry e \<notin> del) M1"
  define A2 where "A2 = foldl mergeAdded out as"
  have out: "resolveConflicts dv clock1 localEntries serverDeltas = out"
    by (simp add: resolveConflicts_phases out_def M1_def del_def as_def us_def)
  have idsM1: "id_entry ` set as \<union> id_entry ` set us \<subseteq> id_entry ` set M1"
    by (auto simp: M1_def ids_forEachUpdated ids_foldl_mergeAdded)
  have idsout: "id_entry ` set out = id_entry ` set M1 - del"
    by (auto simp: out_def)
  have settledA2: "settled dv A2 s" if s: "s \<in> set us" "id_entry s \<notin> del" for s
  proof -
    have "settled dv M1 s"
      unfolding M1_def using s(1) by (rule settled_forEachUpdated_all)
    then obtain e where e: "find (\<lambda>x. id_entry x = id_entry s) M1 = Some e"
        "\<not> newer dv (updatedAt s) (updatedAt e)"
      by (auto simp: settled_def split: option.splits)
    have "find (\<lambda>x. id_entry x = id_entry s) out = find (\<lambda>x. id_entry x = id_entry s) M1"
      unfolding out_def using s(2) by (intro find_filter_keep) simp
    with e(1) have "find (\<lambda>x. id_entry x = id_entry s) A2 = Some e"
      unfolding A2_def by (intro find_foldl_mergeAdded) simp
    with e(2) show ?thesis by (simp add: settled_def)
  qed
  have "filter (\<lambda>e. id_entry e \<notin> del) (forEachUpdated dv clock2 0 A2 us)
          = filter (\<lambda>e. id_entry e \<notin> del) A2"
    using settledA2 by (intro filter_forEachUpdated_settled) blast
  also have "\<dots> = filter (\<lambda>e. id_entry e \<notin> del) out"
    unfolding A2_def using idsM1 idsout by (intro filter_foldl_mergeAdded_deleted) blast
  also have "\<dots> = out"
    by (simp add: out_def)
  finally have "resolveConflicts dv clock2 out serverDeltas = out"
    by (simp add: resolveConflicts_phases A2_def del_def as_def us_def)
  then show ?thesis by (simp only: out)
qed


lemma set_mergeAdded: "set (mergeAdded m a) \<subseteq> insert a (set m)"
  by (induction m) (auto simp: mergeAdded_Nil mergeAdded_Cons split: if_splits)

lemma set_mergeUpdated:
  "e \<in> set (mergeUpdated dv st m s) \<Longrightarrow> e \<in> set m \<or> e = s \<or> historyLength e \<le> 5"
  by (induction m) (auto simp: mergeUpdated_Nil mergeUpdated_Cons historyLength_def split: if_splits)

lemma set_foldl_mergeAdded:
  "set m \<subseteq> S \<Longrightarrow> set as \<subseteq> S \<Longrightarrow> set (foldl mergeAdded m as) \<subseteq> S"
proof (induction as arbitrary: m)
  case Nil
  then show ?case by simp
next
  case (Cons a as)
  have "set (mergeAdded m a) \<subseteq> S"
    using set_mergeAdded [of m a] Cons.prems by auto
  with Cons show ?case by simp
qed

lemma set_forEachUpdated:
  "{e. historyLength e \<le> 5} \<subseteq> S \<Longrightarrow> set m \<subseteq> S \<Longrightarrow> set us \<subseteq> S \<Longrightarrow>
   set (forEachUpdated dv clock k m us) \<subseteq> S"
proof (induction us arbitrary: m k)
  case Nil
  then show ?case by simp
next
  case (Cons s us)
  have "set (mergeUpdated dv (clock k) m s) \<subseteq> S"
    using set_mergeUpdated [of _ dv "clock k" m s] Cons.prems by auto
  with Cons show ?case by simp
qed

lemma resolveConflicts_history_cases:
  assumes "e \<in> set (resolveConflicts dv clock localEntries serverDeltas)"
  shows "historyLength e \<le> 5
         \<or> e \<in> set localEntries \<union> set (added serverDeltas) \<union> set (updated serverDeltas)"
proof -
  let ?S = "{e. historyLength e \<le> 5} \<union> set localEntries \<union> set (added serverDeltas)
              \<union> set (updated serverDeltas)"
  have "set (foldl mergeAdded localEntries (added serverDeltas)) \<subseteq> ?S"
    by (intro set_foldl_mergeAdded) auto
  then have "set (forEachUpdated dv clock 0 (foldl mergeAdded localEntries (added serverDeltas))
               (updated serverDeltas)) \<subseteq> ?S"
    by (intro set_forEachUpdated) auto
  with assms show ?thesis by (auto simp: resolveConflicts_phases)
qed

lemma spacing_small: "m < 2 ^ 53 \<Longrightarrow> spacing m = 1"
  by (subst spacing.simps) simp

lemma roundToDouble_exact: "\<bar>n\<bar> \<le> 2 ^ 53 \<Longrightarrow> roundToDouble n = n"
proof (cases "\<bar>n\<bar> < 2 ^ 53")
  case True
  then have "nat \<bar>n\<bar> < 2 ^ 53" by simp
  then have "spacing (nat \<bar>n\<bar>) = 1" by (rule spacing_small)
  then show ?thesis by (simp add: roundToDouble_def Let_def sgn_if)
next
  case False
  assume "\<bar>n\<bar> \<le> 2 ^ 53"
  with False have m: "nat \<bar>n\<bar> = 9007199254740992" by simp
  have s: "spacing 9007199254740992 = 2"
    by (subst spacing.simps) (simp add: spacing_small)
  have "roundToDouble n = sgn n * 9007199254740992"
    by (simp add: roundToDouble_def Let_def m s)
  with m show ?thesis by (simp add: sgn_if split: if_splits)
qed

lemma plusOne_exact: "\<bar>v + 1\<bar> \<le> 2 ^ 53 \<Longrightarrow> plusOne v = v + 1"
  by (simp add: plusOne_def roundToDouble_exact)

lemma plusOne_saturated: "plusOne 9007199254740992 = 9007199254740992"
proof -
  have s: "spacing 9007199254740993 = 2"
    by (subst spacing.simps) (simp add: spacing_small)
  show ?thesis
    by (simp add: plusOne_def roundToDouble_def Let_def s)
qed

lemma plusOne_tie_up: "plusOne 9007199254740994 = 9007199254740996"
proof -
  have s: "spacing 9007199254740995 = 2"
    by (subst spacing.simps) (simp add: spacing_small)
  show ?thesis
    by (simp add: plusOne_def roundToDouble_def Let_def s)
qed

lemma project_applyAddition:
  "filter (\<lambda>e. id_entry e = i) (applyAddition m a) =
   (if id_entry a = i then applyAddition (filter (\<lambda>e. id_entry e = i) m) a
    else filter (\<lambda>e. id_entry e = i) m)"
  by (induction m) (auto simp: applyAddition_Nil applyAddition_Cons)

lemma project_applyUpdate:
  "filter (\<lambda>e. id_entry e = i) (applyUpdate m u) =
   (if id_entry u = i then applyUpdate (filter (\<lambda>e. id_entry e = i) m) u
    else filter (\<lambda>e. id_entry e = i) m)"
  by (induction m) (auto simp: applyUpdate_Nil applyUpdate_Cons)

lemma project_foldl_applyAddition:
  "filter (\<lambda>e. id_entry e = i) (foldl applyAddition m as) =
   foldl applyAddition (filter (\<lambda>e. id_entry e = i) m) (filter (\<lambda>e. id_entry e = i) as)"
  by (induction as arbitrary: m) (simp_all add: project_applyAddition)

lemma project_foldl_applyUpdate:
  "filter (\<lambda>e. id_entry e = i) (foldl applyUpdate m us) =
   foldl applyUpdate (filter (\<lambda>e. id_entry e = i) m) (filter (\<lambda>e. id_entry e = i) us)"
  by (induction us arbitrary: m) (simp_all add: project_applyUpdate)

lemma project_applyDelta_deleted:
  assumes "i \<in> set (deleted body)"
  shows "filter (\<lambda>e. id_entry e = i) (applyDelta entries body) =
         foldl applyUpdate
           (foldl applyAddition [] (filter (\<lambda>e. id_entry e = i) (added body)))
           (filter (\<lambda>e. id_entry e = i) (updated body))"
proof -
  have "filter (\<lambda>e. id_entry e = i) (filter (\<lambda>e. id_entry e \<notin> set (deleted body)) entries) = []"
    using assms by (rule count_after_delete)
  then show ?thesis
    by (simp only: applyDelta_folds project_foldl_applyUpdate project_foldl_applyAddition)
qed

lemma ids_foldl_applyAddition:
  "id_entry ` set (foldl applyAddition m as) = id_entry ` set m \<union> id_entry ` set as"
proof (induction as arbitrary: m)
  case Nil
  show ?case by simp
next
  case (Cons a as)
  have "id_entry ` set (applyAddition m a) = insert (id_entry a) (id_entry ` set m)"
    by (induction m) (auto simp: applyAddition_Nil applyAddition_Cons)
  with Cons.IH [of "applyAddition m a"] show ?case by auto
qed

lemma ids_foldl_applyUpdate:
  "id_entry ` set (foldl applyUpdate m us) = id_entry ` set m \<union> id_entry ` set us"
  by (induction us arbitrary: m) (auto simp: ids_applyUpdate)

lemma ids_applyDelta:
  "id_entry ` set (applyDelta entries body) =
   (id_entry ` set entries - set (deleted body))
     \<union> id_entry ` set (added body) \<union> id_entry ` set (updated body)"
  by (auto simp: applyDelta_folds ids_foldl_applyUpdate ids_foldl_applyAddition)

lemma sameHistory_refl: "sameHistory c1 c2 n h h"
  by (cases h) simp_all

lemma sameEntry_refl: "sameEntry c1 c2 n e e"
  by (simp add: sameEntry_def sameHistory_refl split: option.splits)

lemma sameHistory_take:
  "sameHistory c1 c2 n h1 h2 \<Longrightarrow> sameHistory c1 c2 n (take j h1) (take j h2)"
proof (induction h1 arbitrary: h2 j)
  case Nil
  then show ?case by (simp add: sameHistory_refl)
next
  case (Cons r1 h1)
  show ?case
  proof (cases h2)
    case Nil
    with Cons.prems show ?thesis by simp
  next
    case (Cons r2 h2')
    show ?thesis
    proof (cases j)
      case 0
      then show ?thesis by simp
    next
      case (Suc j')
      from Cons.prems Cons have "r1 # h1 = r2 # h2'
          \<or> (archivedBy c1 c2 n r1 r2 \<and> sameHistory c1 c2 n h1 h2')" by simp
      then show ?thesis
      proof
        assume "r1 # h1 = r2 # h2'"
        then show ?thesis by (simp add: Cons sameHistory_refl)
      next
        assume a: "archivedBy c1 c2 n r1 r2 \<and> sameHistory c1 c2 n h1 h2'"
        then have "sameHistory c1 c2 n (take j' h1) (take j' h2')"
          using Cons.IH by blast
        with a show ?thesis by (simp add: Cons Suc)
      qed
    qed
  qed
qed

lemma sameEntry_fields:
  assumes "sameEntry c1 c2 n e1 e2"
  shows "id_entry e1 = id_entry e2" "updatedAt e1 = updatedAt e2" "password e1 = password e2"
proof -
  from assms have e: "e2 = e1\<lparr>conflictHistory := conflictHistory e2\<rparr>"
    by (simp add: sameEntry_def)
  have "id_entry (e1\<lparr>conflictHistory := conflictHistory e2\<rparr>) = id_entry e1"
    "updatedAt (e1\<lparr>conflictHistory := conflictHistory e2\<rparr>) = updatedAt e1"
    "password (e1\<lparr>conflictHistory := conflictHistory e2\<rparr>) = password e1"
    by simp_all
  with e show "id_entry e1 = id_entry e2" "updatedAt e1 = updatedAt e2"
    "password e1 = password e2"
    by simp_all
qed

lemma sameEntry_winner:
  assumes "sameEntry c1 c2 n l1 l2" and "k < n"
  shows "sameEntry c1 c2 n
           (s\<lparr>conflictHistory := Some (\<lparr>password_c = password l1, resolvedAt = c1 k,
                resolution = ServerWins\<rparr>
                # take 4 (case conflictHistory l1 of Some h \<Rightarrow> h | None \<Rightarrow> []))\<rparr>)
           (s\<lparr>conflictHistory := Some (\<lparr>password_c = password l2, resolvedAt = c2 k,
                resolution = ServerWins\<rparr>
                # take 4 (case conflictHistory l2 of Some h \<Rightarrow> h | None \<Rightarrow> []))\<rparr>)"
proof -
  have tails: "sameHistory c1 c2 n
                 (take 4 (case conflictHistory l1 of Some h \<Rightarrow> h | None \<Rightarrow> []))
                 (take 4 (case conflictHistory l2 of Some h \<Rightarrow> h | None \<Rightarrow> []))"
    using assms(1)
    by (auto simp: sameEntry_def sameHistory_refl intro: sameHistory_take split: option.splits)
  have heads: "archivedBy c1 c2 n
                 \<lparr>password_c = password l1, resolvedAt = c1 k, resolution = ServerWins\<rparr>
                 \<lparr>password_c = password l2, resolvedAt = c2 k, resolution = ServerWins\<rparr>"
    using sameEntry_fields(3) [OF assms(1)] assms(2) by (auto simp: archivedBy_def)
  from tails heads show ?thesis by (simp add: sameEntry_def)
qed

lemma sameEntry_mergeUpdated:
  "list_all2 (sameEntry c1 c2 n) m1 m2 \<Longrightarrow> k < n \<Longrightarrow>
   list_all2 (sameEntry c1 c2 n) (mergeUpdated dv (c1 k) m1 s) (mergeUpdated dv (c2 k) m2 s)"
proof (induction m1 arbitrary: m2)
  case Nil
  then show ?case by (simp add: mergeUpdated_Nil sameEntry_refl)
next
  case (Cons x m1)
  from Cons.prems(1) obtain y m2' where m2: "m2 = y # m2'" "sameEntry c1 c2 n x y"
    "list_all2 (sameEntry c1 c2 n) m1 m2'" by (cases m2) auto
  note f = sameEntry_fields [OF m2(2)]
  from Cons.IH [OF m2(3) Cons.prems(2)] m2(2,3)
    sameEntry_winner [OF m2(2) Cons.prems(2), where s = s]
  show ?case by (simp add: m2(1) mergeUpdated_Cons f(1,2))
qed

lemma sameEntry_forEachUpdated:
  "list_all2 (sameEntry c1 c2 n) m1 m2 \<Longrightarrow> k + length us \<le> n \<Longrightarrow>
   list_all2 (sameEntry c1 c2 n) (forEachUpdated dv c1 k m1 us) (forEachUpdated dv c2 k m2 us)"
proof (induction us arbitrary: m1 m2 k)
  case Nil
  then show ?case by simp
next
  case (Cons s us)
  from Cons.prems(2) have k: "k < n" "Suc k + length us \<le> n" by simp_all
  have "list_all2 (sameEntry c1 c2 n) (mergeUpdated dv (c1 k) m1 s) (mergeUpdated dv (c2 k) m2 s)"
    using Cons.prems(1) k(1) by (rule sameEntry_mergeUpdated)
  from Cons.IH [OF this k(2)] show ?case by simp
qed

lemma sameEntry_filter_id:
  "list_all2 (sameEntry c1 c2 n) m1 m2 \<Longrightarrow>
   list_all2 (sameEntry c1 c2 n) (filter (\<lambda>e. Q (id_entry e)) m1) (filter (\<lambda>e. Q (id_entry e)) m2)"
proof (induction m1 arbitrary: m2)
  case Nil
  then show ?case by simp
next
  case (Cons x m1)
  from Cons.prems obtain y m2' where m2: "m2 = y # m2'" "sameEntry c1 c2 n x y"
    "list_all2 (sameEntry c1 c2 n) m1 m2'" by (cases m2) auto
  from Cons.IH [OF m2(3)] m2(2) sameEntry_fields(1) [OF m2(2)]
  show ?case by (simp add: m2(1))
qed

lemma resolveConflicts_same_up_to_archived_stamps:
  "list_all2 (sameEntry clock1 clock2 (length (updated serverDeltas)))
     (resolveConflicts dv clock1 localEntries serverDeltas)
     (resolveConflicts dv clock2 localEntries serverDeltas)"
proof -
  let ?E = "sameEntry clock1 clock2 (length (updated serverDeltas))"
  let ?m = "foldl mergeAdded localEntries (added serverDeltas)"
  have "list_all2 ?E ?m ?m"
    by (simp add: list_all2_same sameEntry_refl)
  then have "list_all2 ?E (forEachUpdated dv clock1 0 ?m (updated serverDeltas))
                          (forEachUpdated dv clock2 0 ?m (updated serverDeltas))"
    by (rule sameEntry_forEachUpdated) simp
  then have "list_all2 ?E
      (filter (\<lambda>e. id_entry e \<notin> set (deleted serverDeltas))
         (forEachUpdated dv clock1 0 ?m (updated serverDeltas)))
      (filter (\<lambda>e. id_entry e \<notin> set (deleted serverDeltas))
         (forEachUpdated dv clock2 0 ?m (updated serverDeltas)))"
    by (rule sameEntry_filter_id [where Q = "\<lambda>i. i \<notin> set (deleted serverDeltas)"])
  then show ?thesis by (simp only: resolveConflicts_phases)
qed

section \<open>The scenarios of the server test-suite\<close>

text \<open>The model run on three cases of \<open>vault.test.ts\<close>: an addition at the matching
  base version (200, version 2, one entry); a stale base version against a vault at
  version 10 (409 with \<open>server_base_version\<close> 10); a tombstone update (the stored entry
  is deleted and at version 2).\<close>

lemma scenario_accept:
  "sync 7 [''u1'' \<mapsto> fixtureVault] ''u1'' fixtureDelta =
     (Success 2 [fixture 1 2 at1 ''pw''] 7,
      [''u1'' \<mapsto> fixtureVault\<lparr>vaultVersion := 2,
                      encryptedEntries := [fixture 1 2 at1 ''pw''], lastSyncedAt := 7\<rparr>])"
  by (simp add: sync_def applyDelta_def applyAddition_def fixtureVault_def fixtureDelta_def
      plusOne_exact)

lemma scenario_stale:
  "fst (sync 7 [''u1'' \<mapsto> fixtureVault\<lparr>vaultVersion := 10,
                   encryptedEntries := [fixture 1 10 at0 ''pw'']\<rparr>] ''u1'' staleDelta) =
     Conflict 10 10 [fixture 1 10 at0 ''pw'']"
  by (simp add: sync_def fixtureVault_def staleDelta_def)

lemma scenario_tombstone:
  "\<exists>vault' e. snd (sync 7 [''u1'' \<mapsto> tombstoneVault] ''u1''
                    (tombstoneDelta\<lparr>updated := [deadEntry]\<rparr>)) ''u1'' = Some vault'
     \<and> encryptedEntries vault' = [e] \<and> id_entry e = 123
     \<and> isDeleted e = Some True \<and> version e = 2"
  by (simp add: sync_def applyDelta_def applyUpdate_def tombstoneVault_def tombstoneDelta_def
      aliveEntry_def deadEntry_def fixture_def)

section \<open>The version gate of the server\<close>

text \<open>
  Claim C1. Whenever the submitted \<open>baseVersion\<close> differs from the stored
  \<open>vaultVersion\<close>, the handler answers with a Conflict that carries the stored
  version (as \<open>server_base_version\<close> and as \<open>vaultVersion\<close>) and the stored entry list,
  and the collection, hence the vault's entries, version and \<open>lastSyncedAt\<close>, is
  exactly what it was.
\<close>

theorem sync_conflict_no_mutation:
  assumes "db uid = Some vault" and "baseVersion body \<noteq> vaultVersion vault"
  shows "fst (sync now db uid body) =
           Conflict (vaultVersion vault) (vaultVersion vault) (encryptedEntries vault)
         \<and> snd (sync now db uid body) = db
         \<and> snd (sync now db uid body) uid = Some vault"
  using assms by (simp add: sync_def)

theorem sync_conflict_no_mutation_witness:
  "fst (sync 7 [''u1'' \<mapsto> fixtureVault] ''u1'' staleDelta) = Conflict 1 1 []
   \<and> snd (sync 7 [''u1'' \<mapsto> fixtureVault] ''u1'' staleDelta) = [''u1'' \<mapsto> fixtureVault]"
proof -
  have a: "[''u1'' \<mapsto> fixtureVault] ''u1'' = Some fixtureVault" by simp
  have b: "baseVersion staleDelta \<noteq> vaultVersion fixtureVault"
    by (simp add: staleDelta_def fixtureVault_def)
  show ?thesis
    using sync_conflict_no_mutation
      [where db = "[''u1'' \<mapsto> fixtureVault]" and uid = "''u1''" and now = 7, OF a b]
    by (simp add: fixtureVault_def)
qed

text \<open>
  Claim C2, as the code has it. Whenever the submitted \<open>baseVersion\<close> equals the stored
  \<open>vaultVersion\<close> and that version is an integer from \<open>-2^53\<close> up to \<open>2^53 - 1\<close> (the
  range in which adding 1 to a JavaScript number is exact), the handler succeeds and both
  the stored vault and the response carry the old version plus one, whatever the three
  lists of the change-set contain.
\<close>

theorem sync_match_increments_by_one:
  assumes "db uid = Some vault" and "baseVersion body = vaultVersion vault"
    and "- (2 ^ 53) \<le> vaultVersion vault" and "vaultVersion vault < 2 ^ 53"
  shows "\<exists>vault'. snd (sync now db uid body) uid = Some vault'
           \<and> vaultVersion vault' = vaultVersion vault + 1
           \<and> fst (sync now db uid body) =
               Success (vaultVersion vault + 1) (encryptedEntries vault') now"
proof -
  have "\<bar>vaultVersion vault + 1\<bar> \<le> 2 ^ 53" using assms(3,4) by simp
  then have "plusOne (vaultVersion vault) = vaultVersion vault + 1" by (rule plusOne_exact)
  with assms(1,2) show ?thesis by (simp add: sync_def Let_def)
qed

theorem sync_match_increments_by_one_witness:
  "\<exists>vault'. snd (sync 7 [''u1'' \<mapsto> fixtureVault] ''u1'' fixtureDelta) ''u1'' = Some vault'
     \<and> vaultVersion vault' = 2
     \<and> fst (sync 7 [''u1'' \<mapsto> fixtureVault] ''u1'' fixtureDelta) =
         Success 2 (encryptedEntries vault') 7"
proof -
  have a: "[''u1'' \<mapsto> fixtureVault] ''u1'' = Some fixtureVault" by simp
  have b: "baseVersion fixtureDelta = vaultVersion fixtureVault"
    by (simp add: fixtureDelta_def fixtureVault_def)
  have c: "- (2 ^ 53) \<le> vaultVersion fixtureVault" "vaultVersion fixtureVault < 2 ^ 53"
    by (simp_all add: fixtureVault_def)
  show ?thesis
    using sync_match_increments_by_one
      [where db = "[''u1'' \<mapsto> fixtureVault]" and uid = "''u1''" and now = 7, OF a b c]
    by (simp add: fixtureVault_def)
qed

text \<open>At the stored version \<open>2^53 = 9007199254740992\<close> the base version matches, the
  handler answers 200, and \<open>vault.vaultVersion += 1\<close> leaves the version where it was:
  the stored and the returned version are \<open>2^53\<close>, not \<open>2^53 + 1\<close>.\<close>

theorem sync_saturated_version_unchanged:
  "baseVersion saturatedDelta = vaultVersion saturatedVault
   \<and> saturatedStore ''u1'' = Some saturatedVault
   \<and> vaultVersion saturatedVault = 9007199254740992
   \<and> sync 7 saturatedStore ''u1'' saturatedDelta =
       (Success 9007199254740992 [fixture 1 2 at1 ''pw''] 7,
        saturatedStore(''u1'' \<mapsto> saturatedVault\<lparr>vaultVersion := 9007199254740992,
           encryptedEntries := [fixture 1 2 at1 ''pw''], lastSyncedAt := 7\<rparr>))"
  by (simp add: sync_def applyDelta_def applyUpdate_def saturatedStore_def saturatedVault_def
      saturatedDelta_def plusOne_saturated)

text \<open>
  Claim C3, as the code has it. Submitting the same change-set twice in a row against a
  vault at the change-set's base version \<open>v\<close>, an integer from \<open>-2^53\<close> up to \<open>2^53 - 1\<close>:
  the first submission succeeds and stores version \<open>v + 1\<close>; the second one is answered
  with a Conflict carrying version \<open>v + 1\<close> and the entries stored by the first, and leaves
  the collection produced by the first submission as it is.
\<close>

theorem sync_replay_rejected:
  assumes "db uid = Some vault" and "baseVersion body = vaultVersion vault"
    and "- (2 ^ 53) \<le> vaultVersion vault" and "vaultVersion vault < 2 ^ 53"
  shows "\<exists>vault1 db1.
           sync now1 db uid body =
             (Success (vaultVersion vault + 1) (encryptedEntries vault1) now1, db1)
           \<and> db1 uid = Some vault1
           \<and> vaultVersion vault1 = vaultVersion vault + 1
           \<and> sync now2 db1 uid body =
               (Conflict (vaultVersion vault + 1) (vaultVersion vault + 1)
                  (encryptedEntries vault1), db1)"
proof -
  have "\<bar>vaultVersion vault + 1\<bar> \<le> 2 ^ 53" using assms(3,4) by simp
  then have "plusOne (vaultVersion vault) = vaultVersion vault + 1" by (rule plusOne_exact)
  with assms(1,2) show ?thesis by (simp add: sync_def Let_def)
qed

theorem sync_replay_rejected_witness:
  "\<exists>vault1 db1.
     sync 7 [''u1'' \<mapsto> fixtureVault] ''u1'' fixtureDelta =
       (Success 2 (encryptedEntries vault1) 7, db1)
     \<and> db1 ''u1'' = Some vault1
     \<and> vaultVersion vault1 = 2
     \<and> sync 8 db1 ''u1'' fixtureDelta = (Conflict 2 2 (encryptedEntries vault1), db1)"
proof -
  have a: "[''u1'' \<mapsto> fixtureVault] ''u1'' = Some fixtureVault" by simp
  have b: "baseVersion fixtureDelta = vaultVersion fixtureVault"
    by (simp add: fixtureDelta_def fixtureVault_def)
  have c: "- (2 ^ 53) \<le> vaultVersion fixtureVault" "vaultVersion fixtureVault < 2 ^ 53"
    by (simp_all add: fixtureVault_def)
  show ?thesis
    using sync_replay_rejected
      [where db = "[''u1'' \<mapsto> fixtureVault]" and uid = "''u1''" and ?now1.0 = 7 and ?now2.0 = 8,
       OF a b c]
    by (simp add: fixtureVault_def)
qed

text \<open>At the stored version \<open>2^53\<close> the first submission is accepted and leaves the
  version at \<open>2^53\<close>, so the same change-set submitted again passes the version check
  and is accepted again; the state is written a second time.\<close>

theorem sync_saturated_replay_accepted:
  "fst (sync 7 saturatedStore ''u1'' saturatedDelta) =
     Success 9007199254740992 [fixture 1 2 at1 ''pw''] 7
   \<and> sync 8 (snd (sync 7 saturatedStore ''u1'' saturatedDelta)) ''u1'' saturatedDelta =
       (Success 9007199254740992 [fixture 1 2 at1 ''pw''] 8,
        saturatedStore(''u1'' \<mapsto> saturatedVault\<lparr>vaultVersion := 9007199254740992,
           encryptedEntries := [fixture 1 2 at1 ''pw''], lastSyncedAt := 8\<rparr>))"
  by (simp add: sync_def applyDelta_def applyUpdate_def saturatedStore_def saturatedVault_def
      saturatedDelta_def plusOne_saturated fixture_def)

section \<open>The delta calculator\<close>

text \<open>
  Claim C4. For every entry list and base version the change-set built by
  \<open>calculateDelta\<close> has in \<open>updated\<close> exactly the local entries whose version exceeds
  the base version, tombstones or not, in their local order; \<open>added\<close> and \<open>deleted\<close>
  are empty; \<open>baseVersion\<close> is the argument.
\<close>

theorem calculateDelta_fields:
  "updated (calculateDelta uuid localEntries bv) = filter (\<lambda>e. version e > bv) localEntries
   \<and> (\<forall>e. e \<in> set (updated (calculateDelta uuid localEntries bv))
          \<longleftrightarrow> e \<in> set localEntries \<and> version e > bv)
   \<and> (\<forall>e d. (e\<lparr>isDeleted := d\<rparr> \<in> set (updated (calculateDelta uuid localEntries bv)))
          = (e\<lparr>isDeleted := d\<rparr> \<in> set localEntries \<and> version e > bv))
   \<and> subseq (updated (calculateDelta uuid localEntries bv)) localEntries
   \<and> added (calculateDelta uuid localEntries bv) = []
   \<and> deleted (calculateDelta uuid localEntries bv) = []
   \<and> baseVersion (calculateDelta uuid localEntries bv) = bv"
  by (simp add: calculateDelta_def)

text \<open>
  Claim C8, as the code has it. \<open>calculateDelta\<close> does not touch its arguments, and
  two calls on the same entry list and base version agree on \<open>added\<close>, \<open>updated\<close>,
  \<open>deleted\<close> and \<open>baseVersion\<close>; the \<open>eventId\<close> is the identifier drawn from
  \<open>crypto.randomUUID()\<close> during the call, so the two change-sets are equal exactly
  when the two identifiers drawn are.
\<close>

theorem calculateDelta_deterministic_up_to_eventId:
  "added (calculateDelta u1 localEntries bv) = added (calculateDelta u2 localEntries bv)
   \<and> updated (calculateDelta u1 localEntries bv) = updated (calculateDelta u2 localEntries bv)
   \<and> deleted (calculateDelta u1 localEntries bv) = deleted (calculateDelta u2 localEntries bv)
   \<and> baseVersion (calculateDelta u1 localEntries bv) = baseVersion (calculateDelta u2 localEntries bv)
   \<and> eventId (calculateDelta u1 localEntries bv) = u1
   \<and> (calculateDelta u1 localEntries bv = calculateDelta u2 localEntries bv \<longleftrightarrow> u1 = u2)"
  by (auto simp add: calculateDelta_def)

text \<open>Two calls on the same pair whose random identifiers differ return different
  change-sets.\<close>

theorem calculateDelta_not_deterministic:
  "calculateDelta ''3b241101-e2bb-4255-8caf-4136c566a962'' [fixture 1 2 at1 ''pw''] 1
   \<noteq> calculateDelta ''9f0e7c52-6f0a-4b8e-a3c1-0d2f5b7c1e44'' [fixture 1 2 at1 ''pw''] 1"
  by (simp add: calculateDelta_def)

section \<open>Application of an accepted change-set\<close>

text \<open>
  Claim C7. Take an accepted change-set and one of its updates \<open>u\<close>, the updates before
  it being \<open>us\<close>; \<open>cur\<close> is the entry list the server holds when it reaches \<open>u\<close>
  (after the deletions, the additions and the updates \<open>us\<close>). If some entry of \<open>cur\<close>
  has the id of \<open>u\<close>, the first such entry \<open>x\<close>, at index \<open>i\<close>, is overwritten in place by
  \<open>u\<close>, whose \<open>conflictHistory\<close> is kept when \<open>u\<close> has one and taken from \<open>x\<close> otherwise;
  every other position is as before. If no entry of \<open>cur\<close> has that id, \<open>u\<close> is appended.
  The list so obtained is what the handler stores for the change-set ending in \<open>u\<close>.
\<close>

theorem sync_applies_update:
  assumes "db uid = Some vault" and "baseVersion body = vaultVersion vault"
  shows "let cur = applyDelta (encryptedEntries vault) (body\<lparr>updated := us\<rparr>);
             res = applyDelta (encryptedEntries vault) (body\<lparr>updated := us @ [u]\<rparr>)
         in (\<exists>vault'. snd (sync now db uid (body\<lparr>updated := us @ [u]\<rparr>)) uid = Some vault'
                \<and> encryptedEntries vault' = res)
          \<and> (\<forall>x. find (\<lambda>e. id_entry e = id_entry u) cur = Some x \<longrightarrow>
                (\<exists>i<length cur. cur ! i = x \<and> (\<forall>j<i. id_entry (cur ! j) \<noteq> id_entry u)
                   \<and> res = cur[i := u\<lparr>conflictHistory :=
                        (case conflictHistory u of Some h \<Rightarrow> Some h
                         | None \<Rightarrow> conflictHistory x)\<rparr>]))
          \<and> (find (\<lambda>e. id_entry e = id_entry u) cur = None \<longrightarrow> res = cur @ [u])"
proof -
  define cur where "cur = applyDelta (encryptedEntries vault) (body\<lparr>updated := us\<rparr>)"
  define res where "res = applyDelta (encryptedEntries vault) (body\<lparr>updated := us @ [u]\<rparr>)"
  have res: "res = applyUpdate cur u"
    by (simp add: res_def cur_def applyDelta_snoc)
  have stored: "\<exists>vault'. snd (sync now db uid (body\<lparr>updated := us @ [u]\<rparr>)) uid = Some vault'
                  \<and> encryptedEntries vault' = res"
    using assms by (simp add: sync_def Let_def res_def)
  have present: "\<exists>i<length cur. cur ! i = x \<and> (\<forall>j<i. id_entry (cur ! j) \<noteq> id_entry u)
                   \<and> res = cur[i := u\<lparr>conflictHistory :=
                        (case conflictHistory u of Some h \<Rightarrow> Some h
                         | None \<Rightarrow> conflictHistory x)\<rparr>]"
    if "find (\<lambda>e. id_entry e = id_entry u) cur = Some x" for x
  proof -
    from that obtain i where i: "findIndex (\<lambda>e. id_entry e = id_entry u) cur = Some i" "cur ! i = x"
      by (auto simp: find_findIndex)
    from findIndex_Some_props [OF i(1)] i show ?thesis
      by (auto simp: res applyUpdate_def Let_def)
  qed
  have absent: "res = cur @ [u]" if "find (\<lambda>e. id_entry e = id_entry u) cur = None"
    using that by (simp add: res applyUpdate_def find_findIndex)
  show ?thesis
    unfolding Let_def cur_def [symmetric] res_def [symmetric]
    using stored present absent by blast
qed

theorem sync_applies_update_witness:
  "\<exists>vault'. snd (sync 7 [''u1'' \<mapsto> tombstoneVault] ''u1''
                  (tombstoneDelta\<lparr>updated := [] @ [deadEntry]\<rparr>)) ''u1'' = Some vault'
     \<and> encryptedEntries vault' = [deadEntry\<lparr>conflictHistory := conflictHistory aliveEntry\<rparr>]"
proof -
  have a: "[''u1'' \<mapsto> tombstoneVault] ''u1'' = Some tombstoneVault" by simp
  have b: "baseVersion tombstoneDelta = vaultVersion tombstoneVault"
    by (simp add: tombstoneDelta_def tombstoneVault_def)
  note h = sync_applies_update
    [where db = "[''u1'' \<mapsto> tombstoneVault]" and uid = "''u1''" and now = 7
       and us = "[]" and u = deadEntry, OF a b, unfolded Let_def]
  have cur: "applyDelta (encryptedEntries tombstoneVault) (tombstoneDelta\<lparr>updated := []\<rparr>)
               = [aliveEntry]"
    by (simp add: applyDelta_def tombstoneVault_def tombstoneDelta_def)
  have ids: "id_entry aliveEntry = id_entry deadEntry" "conflictHistory deadEntry = None"
    by (simp_all add: aliveEntry_def deadEntry_def fixture_def)
  from h have "\<forall>x. find (\<lambda>e. id_entry e = id_entry deadEntry) [aliveEntry] = Some x \<longrightarrow>
      (\<exists>i<length [aliveEntry]. [aliveEntry] ! i = x
          \<and> (\<forall>j<i. id_entry ([aliveEntry] ! j) \<noteq> id_entry deadEntry)
          \<and> applyDelta (encryptedEntries tombstoneVault)
               (tombstoneDelta\<lparr>updated := [] @ [deadEntry]\<rparr>)
             = [aliveEntry][i := deadEntry\<lparr>conflictHistory :=
                  (case conflictHistory deadEntry of Some h \<Rightarrow> Some h
                   | None \<Rightarrow> conflictHistory x)\<rparr>])"
    unfolding cur by blast
  then have res: "applyDelta (encryptedEntries tombstoneVault)
                    (tombstoneDelta\<lparr>updated := [] @ [deadEntry]\<rparr>)
                  = [deadEntry\<lparr>conflictHistory := conflictHistory aliveEntry\<rparr>]"
    using ids by auto
  from h have "\<exists>vault'. snd (sync 7 [''u1'' \<mapsto> tombstoneVault] ''u1''
                  (tombstoneDelta\<lparr>updated := [] @ [deadEntry]\<rparr>)) ''u1'' = Some vault'
     \<and> encryptedEntries vault' = applyDelta (encryptedEntries tombstoneVault)
                    (tombstoneDelta\<lparr>updated := [] @ [deadEntry]\<rparr>)"
    by blast
  then show ?thesis unfolding res .
qed

text \<open>
  Claim C10. Deletions are applied before additions and updates. For an accepted
  change-set and an id in its \<open>deleted\<close> list, the stored entries of that id are what
  the additions and the updates of that id build from the empty list, in this order:
  no entry of that id stored before, and no history of one, survives. So the id is stored
  after the sync exactly when the change-set adds or updates it. When an update carries
  the id, the stored list holds exactly one entry of that id, and it is an update of the
  change-set (up to the \<open>conflictHistory\<close> merge among the change-set's own entries);
  when the id has one update and no addition, that update is stored as it came; when it
  is only added, the first addition of that id is stored.
\<close>

theorem sync_delete_then_update:
  assumes "db uid = Some vault" and "baseVersion body = vaultVersion vault"
    and "i \<in> set (deleted body)"
  shows "\<exists>vault'. snd (sync now db uid body) uid = Some vault'
           \<and> filter (\<lambda>e. id_entry e = i) (encryptedEntries vault') =
               foldl applyUpdate
                 (foldl applyAddition [] (filter (\<lambda>e. id_entry e = i) (added body)))
                 (filter (\<lambda>e. id_entry e = i) (updated body))
           \<and> (i \<in> id_entry ` set (encryptedEntries vault')
                \<longleftrightarrow> i \<in> id_entry ` set (added body) \<union> id_entry ` set (updated body))
           \<and> (\<forall>u \<in> set (updated body). id_entry u = i \<longrightarrow>
                (\<exists>e u'. filter (\<lambda>e. id_entry e = i) (encryptedEntries vault') = [e]
                   \<and> u' \<in> set (updated body) \<and> id_entry u' = i
                   \<and> e = u'\<lparr>conflictHistory := conflictHistory e\<rparr>))
           \<and> (\<forall>u. filter (\<lambda>e. id_entry e = i) (added body) = []
                    \<and> filter (\<lambda>e. id_entry e = i) (updated body) = [u] \<longrightarrow>
                  filter (\<lambda>e. id_entry e = i) (encryptedEntries vault') = [u])
           \<and> (\<forall>a as. filter (\<lambda>e. id_entry e = i) (added body) = a # as
                    \<and> filter (\<lambda>e. id_entry e = i) (updated body) = [] \<longrightarrow>
                  filter (\<lambda>e. id_entry e = i) (encryptedEntries vault') = [a])"
proof -
  let ?P = "\<lambda>e. id_entry e = i"
  let ?res = "applyDelta (encryptedEntries vault) body"
  define vault' where
    "vault' = vault\<lparr>vaultVersion := plusOne (vaultVersion vault),
                     encryptedEntries := ?res, lastSyncedAt := now\<rparr>"
  have stored: "snd (sync now db uid body) uid = Some vault'"
    using assms(1,2) by (simp add: sync_def Let_def vault'_def)
  have entries: "encryptedEntries vault' = ?res" by (simp add: vault'_def)
  have built: "filter ?P ?res =
      foldl applyUpdate (foldl applyAddition [] (filter ?P (added body)))
        (filter ?P (updated body))"
    using assms(3) by (rule project_applyDelta_deleted)
  have present: "i \<in> id_entry ` set ?res
       \<longleftrightarrow> i \<in> id_entry ` set (added body) \<union> id_entry ` set (updated body)"
    using assms(3) by (auto simp: ids_applyDelta)
  have one: "\<exists>e u'. filter ?P ?res = [e] \<and> u' \<in> set (updated body) \<and> id_entry u' = i
                 \<and> e = u'\<lparr>conflictHistory := conflictHistory e\<rparr>"
    if u: "u \<in> set (updated body)" "id_entry u = i" for u
  proof -
    define afterDel where
      "afterDel = filter (\<lambda>e. id_entry e \<notin> set (deleted body)) (encryptedEntries vault)"
    define base where "base = foldl applyAddition afterDel (added body)"
    have res: "?res = foldl applyUpdate base (updated body)"
      by (simp add: applyDelta_folds base_def afterDel_def)
    have "filter ?P afterDel = []"
      using assms(3) unfolding afterDel_def by (rule count_after_delete)
    then have base: "length (filter ?P base) \<le> Suc 0"
      unfolding base_def by (intro count_foldl_applyAddition) simp
    from u have "\<exists>x\<in>set (updated body). ?P x" by blast
    then obtain us1 u' us2 where split: "updated body = us1 @ u' # us2" "?P u'"
        "\<forall>x\<in>set us2. \<not> ?P x"
      by (auto dest!: split_list_last_prop)
    define m1 where "m1 = foldl applyUpdate base us1"
    have "length (filter ?P m1) \<le> Suc 0"
      unfolding m1_def using base by (rule count_foldl_applyUpdate)
    with split(2) obtain c where c: "filter ?P (applyUpdate m1 u') = [u'\<lparr>conflictHistory := c\<rparr>]"
      using filter_applyUpdate_same [of u' m1] by auto
    have "filter ?P (foldl applyUpdate base (updated body))
            = filter ?P (foldl applyUpdate (applyUpdate m1 u') us2)"
      by (simp add: split(1) m1_def)
    also have "\<dots> = filter ?P (applyUpdate m1 u')"
      using split(3) by (intro filter_foldl_applyUpdate_other) auto
    finally have fin: "filter ?P ?res = [u'\<lparr>conflictHistory := c\<rparr>]"
      using c res by simp
    have "u' \<in> set (updated body)" by (simp add: split(1))
    with fin split(2) show ?thesis
      by (intro exI [of _ "u'\<lparr>conflictHistory := c\<rparr>"] exI [of _ u']) simp
  qed
  have onlyUpdate: "filter ?P ?res = [u]"
    if "filter ?P (added body) = [] \<and> filter ?P (updated body) = [u]" for u
    using that by (simp add: built applyUpdate_Nil)
  have onlyAdded: "filter ?P ?res = [a]"
    if h: "filter ?P (added body) = a # as \<and> filter ?P (updated body) = []" for a as
  proof -
    have "set (a # as) = set (filter ?P (added body))" using h by simp
    then have "\<forall>x\<in>set (a # as). ?P x"
      by (simp only: set_filter) blast
    then have ids: "id_entry a = i" "\<forall>x\<in>set as. id_entry x = i" by simp_all
    have "foldl applyAddition [a] as = [a]"
      using ids by (induction as) (simp_all add: applyAddition_Cons)
    with h show ?thesis by (simp add: built applyAddition_Nil)
  qed
  show ?thesis
  proof (intro exI [of _ vault'] conjI)
    show "snd (sync now db uid body) uid = Some vault'" by (rule stored)
    show "filter ?P (encryptedEntries vault') =
        foldl applyUpdate (foldl applyAddition [] (filter ?P (added body)))
          (filter ?P (updated body))"
      unfolding entries by (rule built)
    show "i \<in> id_entry ` set (encryptedEntries vault')
         \<longleftrightarrow> i \<in> id_entry ` set (added body) \<union> id_entry ` set (updated body)"
      unfolding entries by (rule present)
    show "\<forall>u \<in> set (updated body). id_entry u = i \<longrightarrow>
           (\<exists>e u'. filter ?P (encryptedEntries vault') = [e]
              \<and> u' \<in> set (updated body) \<and> id_entry u' = i
              \<and> e = u'\<lparr>conflictHistory := conflictHistory e\<rparr>)"
      unfolding entries using one by blast
    show "\<forall>u. filter ?P (added body) = [] \<and> filter ?P (updated body) = [u] \<longrightarrow>
            filter ?P (encryptedEntries vault') = [u]"
      unfolding entries using onlyUpdate by blast
    show "\<forall>a as. filter ?P (added body) = a # as \<and> filter ?P (updated body) = [] \<longrightarrow>
            filter ?P (encryptedEntries vault') = [a]"
      unfolding entries using onlyAdded by blast
  qed
qed

theorem sync_delete_then_update_witness:
  "(\<exists>vault'. snd (sync 7 [''u1'' \<mapsto> tombstoneVault] ''u1''
                   (tombstoneDelta\<lparr>updated := [deadEntry], deleted := [123]\<rparr>)) ''u1''
                = Some vault'
      \<and> filter (\<lambda>e. id_entry e = 123) (encryptedEntries vault') = [deadEntry]
      \<and> 123 \<in> id_entry ` set (encryptedEntries vault'))
   \<and> (\<exists>vault'. snd (sync 7 [''u1'' \<mapsto> tombstoneVault] ''u1''
                   (tombstoneDelta\<lparr>added := [deadEntry], deleted := [123]\<rparr>)) ''u1''
                = Some vault'
      \<and> filter (\<lambda>e. id_entry e = 123) (encryptedEntries vault') = [deadEntry]
      \<and> 123 \<in> id_entry ` set (encryptedEntries vault'))"
proof -
  let ?upd = "tombstoneDelta\<lparr>updated := [deadEntry], deleted := [123]\<rparr>"
  let ?add = "tombstoneDelta\<lparr>added := [deadEntry], deleted := [123]\<rparr>"
  have a: "[''u1'' \<mapsto> tombstoneVault] ''u1'' = Some tombstoneVault" by simp
  have b: "baseVersion ?upd = vaultVersion tombstoneVault"
    "baseVersion ?add = vaultVersion tombstoneVault"
    by (simp_all add: tombstoneDelta_def tombstoneVault_def)
  have c: "123 \<in> set (deleted ?upd)" "123 \<in> set (deleted ?add)" by simp_all
  have e: "id_entry deadEntry = 123" by (simp add: deadEntry_def fixture_def)
  have fu: "filter (\<lambda>e. id_entry e = 123) (added ?upd) = []
            \<and> filter (\<lambda>e. id_entry e = 123) (updated ?upd) = [deadEntry]"
    by (simp add: tombstoneDelta_def e)
  have fa: "filter (\<lambda>e. id_entry e = 123) (added ?add) = deadEntry # []
            \<and> filter (\<lambda>e. id_entry e = 123) (updated ?add) = []"
    by (simp add: tombstoneDelta_def e)
  have iu: "123 \<in> id_entry ` set (added ?upd) \<union> id_entry ` set (updated ?upd)"
    by (simp add: e)
  have ia: "123 \<in> id_entry ` set (added ?add) \<union> id_entry ` set (updated ?add)"
    by (simp add: e)
  from sync_delete_then_update
    [where db = "[''u1'' \<mapsto> tombstoneVault]" and uid = "''u1''" and now = 7,
     OF a b(1) c(1)] fu iu
  have first: "\<exists>vault'. snd (sync 7 [''u1'' \<mapsto> tombstoneVault] ''u1'' ?upd) ''u1'' = Some vault'
      \<and> filter (\<lambda>e. id_entry e = 123) (encryptedEntries vault') = [deadEntry]
      \<and> 123 \<in> id_entry ` set (encryptedEntries vault')"
    by blast
  from sync_delete_then_update
    [where db = "[''u1'' \<mapsto> tombstoneVault]" and uid = "''u1''" and now = 7,
     OF a b(2) c(2)] fa ia
  have second: "\<exists>vault'. snd (sync 7 [''u1'' \<mapsto> tombstoneVault] ''u1'' ?add) ''u1'' = Some vault'
      \<and> filter (\<lambda>e. id_entry e = 123) (encryptedEntries vault') = [deadEntry]
      \<and> 123 \<in> id_entry ` set (encryptedEntries vault')"
    by blast
  from first second show ?thesis by blast
qed

section \<open>The conflict resolver\<close>

text \<open>
  Claim C9. An entry that exists locally and whose id no server update carries: when the
  id is not in the delta's \<open>deleted\<close> list, the entry is in the output and the output's
  entries with that id are exactly the local ones, unchanged; when the id is in
  \<open>deleted\<close>, the output has no entry with that id.
\<close>

theorem resolveConflicts_local_only:
  assumes "e \<in> set localEntries"
    and "id_entry e \<notin> id_entry ` set (updated serverDeltas)"
  shows "(id_entry e \<notin> set (deleted serverDeltas) \<longrightarrow>
            e \<in> set (resolveConflicts dv clock localEntries serverDeltas)
            \<and> filter (\<lambda>x. id_entry x = id_entry e)
                 (resolveConflicts dv clock localEntries serverDeltas)
               = filter (\<lambda>x. id_entry x = id_entry e) localEntries)
       \<and> (id_entry e \<in> set (deleted serverDeltas) \<longrightarrow>
            id_entry e \<notin> id_entry ` set (resolveConflicts dv clock localEntries serverDeltas))"
proof -
  let ?i = "id_entry e"
  let ?P = "\<lambda>x. id_entry x = ?i"
  let ?M = "forEachUpdated dv clock 0 (foldl mergeAdded localEntries (added serverDeltas))
              (updated serverDeltas)"
  have present: "?i \<in> id_entry ` set localEntries" using assms(1) by blast
  have "filter ?P ?M = filter ?P (foldl mergeAdded localEntries (added serverDeltas))"
    using assms(2) by (intro filter_forEachUpdated_other) (auto simp: image_iff)
  also have "\<dots> = filter ?P localEntries"
    using present by (rule filter_foldl_mergeAdded)
  finally have M: "filter ?P ?M = filter ?P localEntries" .
  have kept: "filter ?P (resolveConflicts dv clock localEntries serverDeltas) = filter ?P localEntries"
    if "?i \<notin> set (deleted serverDeltas)"
  proof -
    have "filter ?P (filter (\<lambda>x. id_entry x \<notin> set (deleted serverDeltas)) ?M) = filter ?P ?M"
      using that by (intro filter_filter_keep) simp
    with M show ?thesis by (simp only: resolveConflicts_phases)
  qed
  have mem: "e \<in> set (resolveConflicts dv clock localEntries serverDeltas)"
    if "?i \<notin> set (deleted serverDeltas)"
  proof -
    have "e \<in> set (filter ?P localEntries)" using assms(1) by simp
    then have "e \<in> set (filter ?P (resolveConflicts dv clock localEntries serverDeltas))"
      by (simp only: kept [OF that])
    then show ?thesis by simp
  qed
  have gone: "?i \<notin> id_entry ` set (resolveConflicts dv clock localEntries serverDeltas)"
    if "?i \<in> set (deleted serverDeltas)"
    using that by (auto simp: resolveConflicts_phases)
  from kept mem gone show ?thesis by blast
qed

theorem resolveConflicts_local_only_witness:
  "fixture 2 1 at1 ''only-local''
     \<in> set (resolveConflicts fixtureDate fixtureClock localFixture serverFixture)
   \<and> filter (\<lambda>x. id_entry x = 2)
        (resolveConflicts fixtureDate fixtureClock localFixture serverFixture)
      = [fixture 2 1 at1 ''only-local'']
   \<and> 2 \<notin> id_entry ` set (resolveConflicts fixtureDate fixtureClock localFixture
                            (serverFixture\<lparr>deleted := [2]\<rparr>))"
proof -
  let ?e = "fixture 2 1 at1 ''only-local''"
  have i: "id_entry ?e = 2" by (simp add: fixture_def)
  have a: "?e \<in> set localFixture" by (simp add: localFixture_def)
  have b: "id_entry ?e \<notin> id_entry ` set (updated serverFixture)"
    by (simp add: serverFixture_def fixture_def)
  have b': "id_entry ?e \<notin> id_entry ` set (updated (serverFixture\<lparr>deleted := [2]\<rparr>))"
    using b by simp
  have c: "id_entry ?e \<notin> set (deleted serverFixture)"
    by (simp add: serverFixture_def)
  have c': "id_entry ?e \<in> set (deleted (serverFixture\<lparr>deleted := [2]\<rparr>))"
    by (simp add: i)
  have f: "filter (\<lambda>x. id_entry x = 2) localFixture = [?e]"
    by (simp add: localFixture_def fixture_def)
  from resolveConflicts_local_only [OF a b, of fixtureDate fixtureClock] c
  have "?e \<in> set (resolveConflicts fixtureDate fixtureClock localFixture serverFixture)
        \<and> filter (\<lambda>x. id_entry x = id_entry ?e)
             (resolveConflicts fixtureDate fixtureClock localFixture serverFixture)
           = filter (\<lambda>x. id_entry x = id_entry ?e) localFixture"
    by blast
  moreover
  from resolveConflicts_local_only [OF a b', of fixtureDate fixtureClock] c'
  have "id_entry ?e \<notin> id_entry ` set (resolveConflicts fixtureDate fixtureClock localFixture
                            (serverFixture\<lparr>deleted := [2]\<rparr>))"
    by blast
  ultimately show ?thesis by (simp add: i f)
qed

text \<open>
  Claim C5, as the code has it. Let \<open>l\<close> be the local entry for an id (the first entry of
  the local list with that id) and let exactly one entry \<open>s\<close> of the server's \<open>updated\<close>
  list carry that id. After the update loop the entry for that id is \<open>s\<close> exactly when
  \<open>new Date(s.updatedAt) > new Date(l.updatedAt)\<close>; its \<open>conflictHistory\<close> is then the
  record \<open>{password: l.password, resolvedAt: now, resolution: 'server-wins'}\<close> followed by
  the first four records of the history of \<open>l\<close>, at most five records. Otherwise the
  entry for that id is \<open>l\<close>, unchanged, with no record written. The same holds for the
  result of \<open>resolveConflicts\<close> whenever the delta does not list that id in \<open>deleted\<close>.
\<close>

theorem resolveConflicts_last_writer_wins:
  assumes "find (\<lambda>e. id_entry e = i) localEntries = Some l"
    and "updated serverDeltas = before @ s # after"
    and "id_entry s = i"
    and "\<forall>x \<in> set before \<union> set after. id_entry x \<noteq> i"
  shows "let merged = forEachUpdated dv clock 0 (foldl mergeAdded localEntries (added serverDeltas))
                        (updated serverDeltas);
             archived = \<lparr>password_c = password l, resolvedAt = clock (length before),
                          resolution = ServerWins\<rparr>
                        # take 4 (case conflictHistory l of Some h \<Rightarrow> h | None \<Rightarrow> []);
             winner = (if newer dv (updatedAt s) (updatedAt l)
                       then s\<lparr>conflictHistory := Some archived\<rparr> else l)
         in find (\<lambda>e. id_entry e = i) merged = Some winner
          \<and> (i \<notin> set (deleted serverDeltas) \<longrightarrow>
               find (\<lambda>e. id_entry e = i) (resolveConflicts dv clock localEntries serverDeltas)
                 = Some winner)
          \<and> length archived \<le> 5"
proof -
  let ?P = "\<lambda>e. id_entry e = i"
  define m0 where "m0 = foldl mergeAdded localEntries (added serverDeltas)"
  define m1 where "m1 = forEachUpdated dv clock 0 m0 before"
  define m2 where "m2 = mergeUpdated dv (clock (length before)) m1 s"
  define merged where "merged = forEachUpdated dv clock 0 m0 (updated serverDeltas)"
  define archived where "archived = \<lparr>password_c = password l, resolvedAt = clock (length before),
                          resolution = ServerWins\<rparr>
                        # take 4 (case conflictHistory l of Some h \<Rightarrow> h | None \<Rightarrow> [])"
  define winner where "winner = (if newer dv (updatedAt s) (updatedAt l)
                       then s\<lparr>conflictHistory := Some archived\<rparr> else l)"
  have f0: "find ?P m0 = Some l"
    unfolding m0_def using assms(1) by (rule find_foldl_mergeAdded)
  have f1: "find ?P m1 = Some l"
    unfolding m1_def using assms(4) f0 by (simp add: find_forEachUpdated_other)
  have f2: "find ?P m2 = Some winner"
    unfolding m2_def winner_def archived_def
    using find_mergeUpdated_same [of s dv "clock (length before)" m1] f1 assms(3) by simp
  have "merged = forEachUpdated dv clock (Suc (length before)) m2 after"
    by (simp add: merged_def assms(2) forEachUpdated_append m1_def m2_def)
  then have f3: "find ?P merged = Some winner"
    using assms(4) f2 by (simp add: find_forEachUpdated_other)
  have f4: "find ?P (resolveConflicts dv clock localEntries serverDeltas) = Some winner"
    if "i \<notin> set (deleted serverDeltas)"
  proof -
    have "find ?P (filter (\<lambda>e. id_entry e \<notin> set (deleted serverDeltas)) merged) = find ?P merged"
      using that by (intro find_filter_keep) simp
    then show ?thesis
      using f3 by (simp add: resolveConflicts_phases merged_def m0_def)
  qed
  have len: "length archived \<le> 5" by (simp add: archived_def)
  show ?thesis
    unfolding Let_def
    using f3 f4 len
    unfolding merged_def m0_def winner_def archived_def by blast
qed

theorem resolveConflicts_last_writer_wins_witness:
  "find (\<lambda>e. id_entry e = 1)
     (resolveConflicts fixtureDate fixtureClock localFixture serverFixture)
   = Some ((fixture 1 2 at2 ''server-pw'')\<lparr>conflictHistory :=
        Some [\<lparr>password_c = ''local-pw'', resolvedAt = ''2024-01-02T08:00:00.001Z'',
               resolution = ServerWins\<rparr>]\<rparr>)
   \<and> find (\<lambda>e. id_entry e = 1)
       (resolveConflicts fixtureDate fixtureClock [fixture 1 4 at3 ''local-pw''] serverFixture)
     = Some (fixture 1 4 at3 ''local-pw'')"
proof -
  let ?s = "fixture 1 2 at2 ''server-pw''"
  let ?l = "fixture 1 1 at1 ''local-pw''"
  let ?l' = "fixture 1 4 at3 ''local-pw''"
  have a: "find (\<lambda>e. id_entry e = 1) localFixture = Some ?l"
    by (simp add: localFixture_def fixture_def)
  have a': "find (\<lambda>e. id_entry e = 1) [?l'] = Some ?l'"
    by (simp add: fixture_def)
  have b: "updated serverFixture = [fixture 3 5 at3 ''new''] @ ?s # []"
    by (simp add: serverFixture_def)
  have c: "id_entry ?s = 1" by (simp add: fixture_def)
  have d: "\<forall>x \<in> set [fixture 3 5 at3 ''new''] \<union> set []. id_entry x \<noteq> 1"
    by (simp add: fixture_def)
  have e: "1 \<notin> set (deleted serverFixture)" by (simp add: serverFixture_def)
  have n: "newer fixtureDate (updatedAt ?s) (updatedAt ?l)"
    "\<not> newer fixtureDate (updatedAt ?s) (updatedAt ?l')"
    by (simp_all add: newer_def fixtureDate_def fixture_def)
  have p: "password ?l = ''local-pw''" "conflictHistory ?l = None"
    by (simp_all add: fixture_def)
  from resolveConflicts_last_writer_wins
    [OF a b c d, of fixtureDate fixtureClock, unfolded Let_def] e n(1)
  have "find (\<lambda>e. id_entry e = 1)
          (resolveConflicts fixtureDate fixtureClock localFixture serverFixture)
        = Some (?s\<lparr>conflictHistory :=
            Some (\<lparr>password_c = password ?l, resolvedAt = fixtureClock (length [fixture 3 5 at3 ''new'']),
                   resolution = ServerWins\<rparr>
                  # take 4 (case conflictHistory ?l of Some h \<Rightarrow> h | None \<Rightarrow> []))\<rparr>)"
    by simp
  then have first: "find (\<lambda>e. id_entry e = 1)
          (resolveConflicts fixtureDate fixtureClock localFixture serverFixture)
        = Some (?s\<lparr>conflictHistory :=
            Some [\<lparr>password_c = ''local-pw'', resolvedAt = ''2024-01-02T08:00:00.001Z'',
               resolution = ServerWins\<rparr>]\<rparr>)"
    by (simp add: p fixtureClock_def)
  from resolveConflicts_last_writer_wins
    [OF a' b c d, of fixtureDate fixtureClock, unfolded Let_def] e n(2)
  have second: "find (\<lambda>e. id_entry e = 1)
          (resolveConflicts fixtureDate fixtureClock [?l'] serverFixture) = Some ?l'"
    by simp
  from first second show ?thesis by simp
qed

text \<open>Outside these two conditions the outcome differs. An id that the delta both
  updates and deletes is absent from the result, although the local entry is the newer
  one. And of two updates of one id the later in the list loses against the earlier when
  it is older than it, although it is newer than the local entry.\<close>

theorem resolveConflicts_deleted_or_duplicate_update:
  "\<not> newer fixtureDate (updatedAt (fixture 1 2 at2 ''server-pw''))
        (updatedAt (fixture 1 4 at3 ''local-pw''))
   \<and> resolveConflicts fixtureDate fixtureClock [fixture 1 4 at3 ''local-pw''] deletingDelta = []
   \<and> newer fixtureDate (updatedAt (fixture 1 2 at2 ''server-b''))
        (updatedAt (fixture 1 1 at1 ''local-pw''))
   \<and> resolveConflicts fixtureDate fixtureClock [fixture 1 1 at1 ''local-pw''] duplicateDelta =
       [(fixture 1 3 at3 ''server-a'')\<lparr>conflictHistory :=
          Some [\<lparr>password_c = ''local-pw'', resolvedAt = ''2024-01-02T08:00:00.000Z'',
                 resolution = ServerWins\<rparr>]\<rparr>]"
proof -
  have n: "\<not> newer fixtureDate at2 at3" "newer fixtureDate at2 at1" "newer fixtureDate at3 at1"
    by (simp_all add: newer_def fixtureDate_def)
  have d: "resolveConflicts fixtureDate fixtureClock [fixture 1 4 at3 ''local-pw''] deletingDelta
             = []"
    by (simp add: resolveConflicts_phases deletingDelta_def mergeUpdated_Cons fixture_def n)
  have u: "resolveConflicts fixtureDate fixtureClock [fixture 1 1 at1 ''local-pw''] duplicateDelta =
       [(fixture 1 3 at3 ''server-a'')\<lparr>conflictHistory :=
          Some [\<lparr>password_c = ''local-pw'', resolvedAt = ''2024-01-02T08:00:00.000Z'',
                 resolution = ServerWins\<rparr>]\<rparr>]"
    by (simp add: resolveConflicts_phases duplicateDelta_def mergeUpdated_Cons fixture_def n
        fixtureClock_def)
  from n d u show ?thesis by (simp add: fixture_def)
qed

text \<open>
  Claim C6, as the code has it. Each archived record is stamped with the wall clock at
  the moment of the merge. Two applications to the same pair give lists of the same
  length whose entries agree position by position on every field but \<open>conflictHistory\<close>,
  and whose histories differ at most in the \<open>resolvedAt\<close> stamps of the server-wins
  records archived by the two applications at the same step of the update loop; they
  give the very same list when the clock readings agree. Re-applying the resolver to
  its own output with the same delta returns that output, whatever the clock reads.
  Every entry of the output either is an entry of the input (local list, \<open>added\<close> or
  \<open>updated\<close>) or has at most five history records; so if no input history exceeds five
  records, no output history does.
\<close>

theorem resolveConflicts_idempotent_bounded:
  "list_all2 (sameEntry clock1 clock2 (length (updated serverDeltas)))
     (resolveConflicts dv clock1 localEntries serverDeltas)
     (resolveConflicts dv clock2 localEntries serverDeltas)
   \<and> ((\<forall>k<length (updated serverDeltas). clock1 k = clock2 k) \<longrightarrow>
        resolveConflicts dv clock1 localEntries serverDeltas
          = resolveConflicts dv clock2 localEntries serverDeltas)
   \<and> resolveConflicts dv clock2 (resolveConflicts dv clock1 localEntries serverDeltas)
        serverDeltas
      = resolveConflicts dv clock1 localEntries serverDeltas
   \<and> (\<forall>e \<in> set (resolveConflicts dv clock1 localEntries serverDeltas).
         historyLength e \<le> 5
         \<or> e \<in> set localEntries \<union> set (added serverDeltas) \<union> set (updated serverDeltas))
   \<and> ((\<forall>e \<in> set localEntries \<union> set (added serverDeltas) \<union> set (updated serverDeltas).
          historyLength e \<le> 5) \<longrightarrow>
        (\<forall>e \<in> set (resolveConflicts dv clock1 localEntries serverDeltas).
          historyLength e \<le> 5))"
proof -
  have same: "resolveConflicts dv clock1 localEntries serverDeltas
                = resolveConflicts dv clock2 localEntries serverDeltas"
    if "\<forall>k<length (updated serverDeltas). clock1 k = clock2 k"
  proof -
    have "forEachUpdated dv clock1 0 (foldl mergeAdded localEntries (added serverDeltas))
            (updated serverDeltas)
          = forEachUpdated dv clock2 0 (foldl mergeAdded localEntries (added serverDeltas))
            (updated serverDeltas)"
      using that by (intro forEachUpdated_clock_cong) simp
    then show ?thesis by (simp only: resolveConflicts_phases)
  qed
  have cases: "\<forall>e \<in> set (resolveConflicts dv clock1 localEntries serverDeltas).
         historyLength e \<le> 5
         \<or> e \<in> set localEntries \<union> set (added serverDeltas) \<union> set (updated serverDeltas)"
    using resolveConflicts_history_cases by blast
  then have bounded: "\<forall>e \<in> set (resolveConflicts dv clock1 localEntries serverDeltas).
          historyLength e \<le> 5"
    if "\<forall>e \<in> set localEntries \<union> set (added serverDeltas) \<union> set (updated serverDeltas).
          historyLength e \<le> 5"
    using that by blast
  from resolveConflicts_same_up_to_archived_stamps [of clock1 clock2 serverDeltas dv localEntries]
    same resolveConflicts_idempotent [of dv clock2 clock1 localEntries serverDeltas]
    cases bounded
  show ?thesis by blast
qed

theorem resolveConflicts_idempotent_bounded_witness:
  "list_all2 (sameEntry fixtureClock laterClock 2)
     (resolveConflicts fixtureDate fixtureClock localFixture serverFixture)
     (resolveConflicts fixtureDate laterClock localFixture serverFixture)
   \<and> resolveConflicts fixtureDate fixtureClock localFixture serverFixture
     = resolveConflicts fixtureDate agreeingClock localFixture serverFixture
   \<and> resolveConflicts fixtureDate laterClock
        (resolveConflicts fixtureDate fixtureClock localFixture serverFixture) serverFixture
     = resolveConflicts fixtureDate fixtureClock localFixture serverFixture
   \<and> list_all (\<lambda>e. historyLength e \<le> 5)
        (resolveConflicts fixtureDate fixtureClock localFixture serverFixture)"
proof -
  have len: "length (updated serverFixture) = 2" by (simp add: serverFixture_def)
  have agree: "\<forall>k<length (updated serverFixture). fixtureClock k = agreeingClock k"
    by (simp add: serverFixture_def agreeingClock_def)
  have small: "\<forall>e \<in> set localFixture \<union> set (added serverFixture) \<union> set (updated serverFixture).
                 historyLength e \<le> 5"
    by (simp add: localFixture_def serverFixture_def fixture_def historyLength_def)
  note r1 = resolveConflicts_idempotent_bounded
    [of fixtureClock laterClock serverFixture fixtureDate localFixture]
  note r2 = resolveConflicts_idempotent_bounded
    [of fixtureClock agreeingClock serverFixture fixtureDate localFixture]
  from r1 have a: "list_all2 (sameEntry fixtureClock laterClock 2)
     (resolveConflicts fixtureDate fixtureClock localFixture serverFixture)
     (resolveConflicts fixtureDate laterClock localFixture serverFixture)"
    unfolding len by blast
  from r2 agree have b: "resolveConflicts fixtureDate fixtureClock localFixture serverFixture
     = resolveConflicts fixtureDate agreeingClock localFixture serverFixture"
    by blast
  from r1 have c: "resolveConflicts fixtureDate laterClock
        (resolveConflicts fixtureDate fixtureClock localFixture serverFixture) serverFixture
     = resolveConflicts fixtureDate fixtureClock localFixture serverFixture"
    by blast
  from r1 small have "\<forall>e \<in> set (resolveConflicts fixtureDate fixtureClock localFixture serverFixture).
          historyLength e \<le> 5"
    by blast
  then have d: "list_all (\<lambda>e. historyLength e \<le> 5)
        (resolveConflicts fixtureDate fixtureClock localFixture serverFixture)"
    by (simp add: list_all_iff)
  from a b c d show ?thesis by blast
qed

text \<open>Two applications to the same pair at different clock readings return different
  lists: the server entry for id 1 is the newer one, the local password is archived, and
  the archived record carries the reading.\<close>

theorem resolveConflicts_depends_on_clock:
  "newer fixtureDate (updatedAt (fixture 1 2 at2 ''server-pw''))
     (updatedAt (fixture 1 1 at1 ''local-pw''))
   \<and> resolveConflicts fixtureDate fixtureClock localFixture serverFixture =
       [(fixture 1 2 at2 ''server-pw'')\<lparr>conflictHistory :=
           Some [\<lparr>password_c = ''local-pw'', resolvedAt = ''2024-01-02T08:00:00.001Z'',
                  resolution = ServerWins\<rparr>]\<rparr>,
        fixture 2 1 at1 ''only-local'',
        fixture 3 5 at3 ''new'']
   \<and> resolveConflicts fixtureDate laterClock localFixture serverFixture =
       [(fixture 1 2 at2 ''server-pw'')\<lparr>conflictHistory :=
           Some [\<lparr>password_c = ''local-pw'', resolvedAt = ''2024-01-02T08:00:00.002Z'',
                  resolution = ServerWins\<rparr>]\<rparr>,
        fixture 2 1 at1 ''only-local'',
        fixture 3 5 at3 ''new'']
   \<and> resolveConflicts fixtureDate fixtureClock localFixture serverFixture
     \<noteq> resolveConflicts fixtureDate laterClock localFixture serverFixture"
proof -
  have n: "newer fixtureDate at2 at1"
    by (simp add: newer_def fixtureDate_def)
  have r: "resolveConflicts fixtureDate clock localFixture serverFixture =
        [(fixture 1 2 at2 ''server-pw'')\<lparr>conflictHistory :=
            Some [\<lparr>password_c = ''local-pw'', resolvedAt = clock 1, resolution = ServerWins\<rparr>]\<rparr>,
         fixture 2 1 at1 ''only-local'',
         fixture 3 5 at3 ''new'']" for clock
    by (simp add: resolveConflicts_phases localFixture_def serverFixture_def
        mergeUpdated_Cons mergeUpdated_Nil fixture_def n)
  show ?thesis
    by (simp add: r fixtureClock_def laterClock_def fixture_def n)
qed

end
